theory Spec2Isabelle
  imports Main "HOL-Library.Sublist"
begin

section \<open>Data model of display-controller.py\<close>

text \<open>
  Python strings are modelled as \<^typ>\<open>string\<close>; the characters that matter to the program
  (markers, digits, tabs, blanks) are all ASCII. Every exception the modelled code can raise
  is a value of \<open>error\<close>, and a computation that may raise returns \<open>error + 'a\<close>.
\<close>

datatype error =
  IndexError | KeyError | TypeError | ValueError | AttributeError | EOFError
  | UnexpectedInput \<comment> \<open>raised by the Lark parser on a line outside the grammar\<close>
  | IllTyped \<comment> \<open>a JSON value that the annotated field types exclude; Python stores it unchecked\<close>

definition bind :: "error + 'a \<Rightarrow> ('a \<Rightarrow> error + 'b) \<Rightarrow> error + 'b" where
  "bind m f = (case m of Inl e \<Rightarrow> Inl e | Inr x \<Rightarrow> f x)"

datatype DisplayMode = CLONE | INTERNAL_ONLY | INTERNAL_EXTEND | EXTERNAL_ONLY

record Offset =
  direction :: string
  offset :: string

text \<open>
  \<open>Display.__init__\<close> stores \<open>''\<close> for an absent edid, so \<open>edid\<close> is always a string;
  \<open>resolution\<close> and the two offsets are \<open>None\<close> for a connected but inactive display.
\<close>

record Display =
  name :: string
  resolution :: "string option"
  x_offset :: "Offset option"
  y_offset :: "Offset option"
  edid :: string

definition Display_init ::
  "string \<Rightarrow> string option \<Rightarrow> Offset option \<Rightarrow> Offset option \<Rightarrow> string option \<Rightarrow> Display" where
  "Display_init n r x y e =
     \<lparr>name = n, resolution = r, x_offset = x, y_offset = y,
      edid = (case e of None \<Rightarrow> [] | Some s \<Rightarrow> s)\<rparr>"

text \<open>Python list indexing \<open>xs[i]\<close>: a negative index counts from the end.\<close>

definition py_index :: "'a list \<Rightarrow> int \<Rightarrow> error + 'a" where
  "py_index xs i =
     (if 0 \<le> i \<and> i < int (length xs) then Inr (xs ! nat i)
      else if i < 0 \<and> - int (length xs) \<le> i then Inr (xs ! nat (int (length xs) + i))
      else Inl IndexError)"

section \<open>Command Builder: \<open>DisplayController.configure\<close>\<close>

text \<open>
  One iteration of \<open>for idx, display in enumerate(displays)\<close>: every \<open>command += ...\<close> of the
  body, in the order and under the conditions of the source. The second test of the
  \<open>EXTERNAL_ONLY\<close> branch is an \<open>if\<close>, not an \<open>elif\<close>, exactly as in the source.
\<close>

definition configure_step ::
  "Display list \<Rightarrow> DisplayMode \<Rightarrow> bool \<Rightarrow> string \<Rightarrow> string \<Rightarrow> nat \<times> Display \<Rightarrow> error + string" where
  "configure_step displays display_mode extend_all dir command0 p =
    (case p of (idx, display) \<Rightarrow>
     bind (Inr (command0 @ '' --output '' @ name display)) (\<lambda>command.
     bind (if display_mode = CLONE then
             (if idx = 0 then Inr (command @ '' --primary --auto'')
              else bind (py_index displays (int idx - 1)) (\<lambda>prev.
                     Inr (command @ '' --auto --same-as '' @ name prev)))
           else Inr command) (\<lambda>command.
     if display_mode = INTERNAL_ONLY then
       (if idx = 0 then Inr (command @ '' --primary --auto'')
        else Inr (command @ '' --off''))
     else if display_mode = EXTERNAL_ONLY then
       bind (if idx = 0 then Inr (command @ '' --off'') else Inr command) (\<lambda>command.
         if idx = 1 then Inr (command @ '' --primary --auto'')
         else if extend_all then
           bind (py_index displays (int idx - 1)) (\<lambda>prev.
             Inr (command @ '' --auto --'' @ dir @ ''-of '' @ name prev))
         else Inr (command @ '' --off''))
     else if display_mode = INTERNAL_EXTEND then
       (if idx = 0 then Inr (command @ '' --primary --auto'')
        else if idx = 1 then
          bind (py_index displays (int idx - 1)) (\<lambda>prev.
            Inr (command @ '' --auto --'' @ dir @ ''-of '' @ name prev))
        else if extend_all then
          bind (py_index displays (int idx - 1)) (\<lambda>prev.
            Inr (command @ '' --auto --'' @ dir @ ''-of '' @ name prev))
        else Inr (command @ '' --off''))
     else Inr command)))"

fun configure_loop ::
  "Display list \<Rightarrow> DisplayMode \<Rightarrow> bool \<Rightarrow> string \<Rightarrow> (nat \<times> Display) list \<Rightarrow> string \<Rightarrow> error + string" where
  "configure_loop displays display_mode extend_all dir [] command = Inr command"
| "configure_loop displays display_mode extend_all dir (p # ps) command =
     bind (configure_step displays display_mode extend_all dir command p)
       (configure_loop displays display_mode extend_all dir ps)"

text \<open>
  \<open>configure\<close> returns the command line it hands to \<open>ProcessUtils.run\<close>; running it is the
  only effect of the source function.
\<close>

definition configure :: "Display list \<Rightarrow> DisplayMode \<Rightarrow> bool \<Rightarrow> string \<Rightarrow> error + string" where
  "configure displays display_mode extend_all dir =
     configure_loop displays display_mode extend_all dir (enumerate 0 displays) ''xrandr''"

text \<open>Three displays used in the concrete evaluations below.\<close>

definition eDP1 :: Display where
  "eDP1 = Display_init ''eDP-1'' (Some ''1920x1080'')
            (Some \<lparr>direction = ''+'', offset = ''0''\<rparr>) (Some \<lparr>direction = ''+'', offset = ''0''\<rparr>)
            (Some ''00ffffffffffff000daec914'')"

definition HDMI1 :: Display where
  "HDMI1 = Display_init ''HDMI-1'' (Some ''1920x1080'')
             (Some \<lparr>direction = ''+'', offset = ''1920''\<rparr>) (Some \<lparr>direction = ''+'', offset = ''0''\<rparr>)
             (Some ''00ffffffffffff0010acb8a0'')"

definition DP2 :: Display where
  "DP2 = Display_init ''DP-2'' None None None (Some ''00ffffffffffff004c2d0e0c'')"

section \<open>Setup Wizard: \<open>rotate\<close> and the loop of \<open>main\<close>\<close>

text \<open>
  Python slices \<open>l[a:]\<close> and \<open>l[:b]\<close>: a negative bound counts from the end and is clipped
  at 0, a bound beyond the length is clipped at the length.
\<close>

definition py_slice_from :: "'a list \<Rightarrow> int \<Rightarrow> 'a list" where
  "py_slice_from l a = drop (if a < 0 then nat (int (length l) + a) else nat a) l"

definition py_slice_to :: "'a list \<Rightarrow> int \<Rightarrow> 'a list" where
  "py_slice_to l b = take (if b < 0 then nat (int (length l) + b) else nat b) l"

text \<open>\<open>def rotate(l, n): return l[-n:] + l[:-n]\<close>\<close>

definition rotate_list :: "'a list \<Rightarrow> int \<Rightarrow> 'a list" where
  "rotate_list l n = py_slice_from l (- n) @ py_slice_to l (- n)"

text \<open>
  The \<open>--setup\<close> branch of \<open>main\<close>. The answers typed at the prompt are a list; \<open>input\<close>
  raises \<open>EOFError\<close> when it is exhausted. \<open>setup_prompt\<close> is the program at the prompt
  \<open>Is this order correct (y/n)?\<close> with the commands issued so far: \<open>y\<close> accepts the current
  order (which is then handed to \<open>JsonUtils.to_json\<close>), \<open>n\<close> rotates the list by one and
  applies the trial configuration of the new order, any other answer prompts again.
\<close>

fun setup_prompt ::
  "Display list \<Rightarrow> string list \<Rightarrow> string list \<Rightarrow> error + (string list \<times> Display list)" where
  "setup_prompt display_list commands [] = Inl EOFError"
| "setup_prompt display_list commands (correct_order # answers) =
     (if ''y'' = correct_order then Inr (commands, display_list)
      else if ''n'' = correct_order then
        bind (configure (rotate_list display_list 1) INTERNAL_EXTEND True ''right'') (\<lambda>command.
          setup_prompt (rotate_list display_list 1) (commands @ [command]) answers)
      else setup_prompt display_list commands answers)"

definition main_setup :: "Display list \<Rightarrow> string list \<Rightarrow> error + (string list \<times> Display list)" where
  "main_setup display_list answers =
     bind (configure display_list INTERNAL_EXTEND True ''right'') (\<lambda>command.
       setup_prompt display_list [command] answers)"

section \<open>Display Matcher: the configuring branch of \<open>main\<close>\<close>

text \<open>
  \<open>get_edids\<close> is only ever applied to lists of \<open>Display\<close> objects, so its \<open>Dict\<close> case is
  not represented.
\<close>

definition get_edids :: "Display list \<Rightarrow> string list" where
  "get_edids displays = map edid displays"

text \<open>
  Lines 370 to 384 of \<open>main\<close>: the choice between the stored configuration (the result of
  \<open>JsonUtils.from_json\<close>, \<open>None\<close> when absent) and the live list, and the renaming loop over
  the stored displays. The result is the list handed to \<open>configure\<close>.
\<close>

definition main_displays :: "Display list option \<Rightarrow> Display list \<Rightarrow> Display list" where
  "main_displays configuration_list current_displays =
     (let use_current =
        (case configuration_list of
           None \<Rightarrow> True
         | Some configuration \<Rightarrow>
             \<not> set (get_edids current_displays) \<subseteq> set (get_edids configuration))
      in if use_current then current_displays
         else (case configuration_list of
                 None \<Rightarrow> current_displays
               | Some configuration \<Rightarrow>
                   map (\<lambda>display. display\<lparr>name :=
                          (case map name (filter (\<lambda>d. edid d = edid display) current_displays) of
                             [] \<Rightarrow> name display
                           | n # _ \<Rightarrow> n)\<rparr>)
                     configuration))"

section \<open>Configuration Store: \<open>JsonUtils\<close> and the \<open>from_json\<close> class methods\<close>

text \<open>
  The values \<open>json.load\<close> returns and \<open>json.dump\<close> accepts. A dict is an association list
  with distinct keys, in insertion order. Floating-point numbers are not represented.
\<close>

datatype json =
  JNull | JBool bool | JNumber int | JString string | JArray "json list"
  | JObject "(string \<times> json) list"

text \<open>\<open>json_data[key]\<close>: only a dict can be subscripted by a string.\<close>

definition json_get :: "json \<Rightarrow> string \<Rightarrow> error + json" where
  "json_get json_data key =
     (case json_data of
        JObject kvs \<Rightarrow> (case map_of kvs key of None \<Rightarrow> Inl KeyError | Some v \<Rightarrow> Inr v)
      | _ \<Rightarrow> Inl TypeError)"

text \<open>A field annotated \<open>str\<close>.\<close>

definition json_str :: "json \<Rightarrow> error + string" where
  "json_str j = (case j of JString s \<Rightarrow> Inr s | _ \<Rightarrow> Inl IllTyped)"

text \<open>A field that holds a string or \<open>None\<close>.\<close>

definition json_opt_str :: "json \<Rightarrow> error + string option" where
  "json_opt_str j = (case j of JString s \<Rightarrow> Inr (Some s) | JNull \<Rightarrow> Inr None | _ \<Rightarrow> Inl IllTyped)"

text \<open>
  \<open>Offset.from_json\<close> is \<open>cls(**json_data)\<close>: a \<open>TypeError\<close> unless \<open>json_data\<close> is a dict
  whose keys are exactly the two parameters of \<open>Offset.__init__\<close>.
\<close>

definition Offset_from_json :: "json \<Rightarrow> error + Offset" where
  "Offset_from_json json_data =
     (case json_data of
        JObject kvs \<Rightarrow>
          (if set (map fst kvs) = {''direction'', ''offset''} then
             bind (json_get json_data ''direction'') (\<lambda>d. bind (json_str d) (\<lambda>d'.
             bind (json_get json_data ''offset'') (\<lambda>v. bind (json_str v) (\<lambda>v'.
               Inr \<lparr>direction = d', offset = v'\<rparr>))))
           else Inl TypeError)
      | _ \<Rightarrow> Inl TypeError)"

text \<open>
  \<open>Display.from_json\<close> reads the two offsets first, each through \<open>Offset.from_json\<close>, then
  name, resolution and edid.
\<close>

definition Display_from_json :: "json \<Rightarrow> error + Display" where
  "Display_from_json json_data =
     bind (json_get json_data ''x_offset'') (\<lambda>xj. bind (Offset_from_json xj) (\<lambda>x_off.
     bind (json_get json_data ''y_offset'') (\<lambda>yj. bind (Offset_from_json yj) (\<lambda>y_off.
     bind (json_get json_data ''name'') (\<lambda>nj.
     bind (json_get json_data ''resolution'') (\<lambda>rj.
     bind (json_get json_data ''edid'') (\<lambda>ej.
     bind (json_str nj) (\<lambda>n. bind (json_opt_str rj) (\<lambda>r. bind (json_opt_str ej) (\<lambda>e.
       Inr (Display_init n r (Some x_off) (Some y_off) e)))))))))))"

text \<open>\<open>list(map(f, xs))\<close> for an \<open>f\<close> that may raise: the first exception ends the loop.\<close>

fun map_err :: "('a \<Rightarrow> error + 'b) \<Rightarrow> 'a list \<Rightarrow> error + 'b list" where
  "map_err f [] = Inr []"
| "map_err f (x # xs) = bind (f x) (\<lambda>y. bind (map_err f xs) (\<lambda>ys. Inr (y # ys)))"

text \<open>
  \<open>DisplayList.from_json\<close> maps \<open>Display.from_json\<close> over \<open>json_data["displays"]\<close>. Iterating
  a string yields its characters and iterating a dict its keys, all strings, on which
  \<open>Display.from_json\<close> raises \<open>TypeError\<close>; \<open>None\<close>, booleans and numbers are not iterable.
\<close>

definition DisplayList_from_json :: "json \<Rightarrow> error + Display list" where
  "DisplayList_from_json json_data =
     bind (json_get json_data ''displays'') (\<lambda>ds.
       case ds of
         JArray xs \<Rightarrow> map_err Display_from_json xs
       | JString s \<Rightarrow> (if s = [] then Inr [] else Inl TypeError)
       | JObject kvs \<Rightarrow> (if kvs = [] then Inr [] else Inl TypeError)
       | _ \<Rightarrow> Inl TypeError)"

text \<open>
  What \<open>json.dump(displays.__dict__, file, default=lambda o: o.__dict__)\<close> writes: every
  object becomes the dict of its attributes, in the order \<open>__init__\<close> assigns them, and
  \<open>None\<close> becomes \<open>null\<close>.
\<close>

definition Offset_dict :: "Offset \<Rightarrow> json" where
  "Offset_dict off = JObject [(''direction'', JString (direction off)), (''offset'', JString (offset off))]"

definition Display_dict :: "Display \<Rightarrow> json" where
  "Display_dict d =
     JObject [(''name'', JString (name d)),
              (''resolution'', (case resolution d of None \<Rightarrow> JNull | Some r \<Rightarrow> JString r)),
              (''x_offset'', (case x_offset d of None \<Rightarrow> JNull | Some off \<Rightarrow> Offset_dict off)),
              (''y_offset'', (case y_offset d of None \<Rightarrow> JNull | Some off \<Rightarrow> Offset_dict off)),
              (''edid'', JString (edid d))]"

definition DisplayList_dict :: "Display list \<Rightarrow> json" where
  "DisplayList_dict displays = JObject [(''displays'', JArray (map Display_dict displays))]"

text \<open>
  The file system, as far as the store uses it: the regular files by path. A file holds JSON
  text, represented by the value it denotes (\<open>json.dump\<close> writes the text of a value and
  \<open>json.load\<close> reads it back), or text that \<open>json.load\<close> rejects. The directory
  \<open>~/.config\<close> is taken to exist and be writable. \<open>home\<close> is \<open>path.expanduser('~')\<close>.
\<close>

datatype content = Json_text json | Other_text

type_synonym files = "string \<Rightarrow> content option"

definition file_name :: "string \<Rightarrow> string" where
  "file_name home = home @ ''/.config/display-switcher.conf''"

definition to_json :: "string \<Rightarrow> Display list \<Rightarrow> files \<Rightarrow> files" where
  "to_json home displays fs = fs(file_name home \<mapsto> Json_text (DisplayList_dict displays))"

text \<open>
  \<open>JsonUtils.from_json\<close> returns its result together with the file system it leaves, which
  it never changes. \<open>json.load\<close> raises \<open>JSONDecodeError\<close>, a \<open>ValueError\<close>, on other text.
\<close>

definition from_json :: "string \<Rightarrow> files \<Rightarrow> (error + Display list option) \<times> files" where
  "from_json home fs =
     (case fs (file_name home) of
        None \<Rightarrow> (Inr None, fs)
      | Some Other_text \<Rightarrow> (Inl ValueError, fs)
      | Some (Json_text j) \<Rightarrow> (bind (DisplayList_from_json j) (\<lambda>ds. Inr (Some ds)), fs))"

section \<open>Status Parser: strings\<close>

text \<open>
  The characters \<open>str.strip()\<close> removes, among the code points below 256: the ASCII
  white space, the separators \<open>0x1C\<close> to \<open>0x1F\<close>, \<open>0x85\<close> and \<open>0xA0\<close>.
\<close>

definition is_space :: "char \<Rightarrow> bool" where
  "is_space c \<longleftrightarrow>
     c \<in> set [CHR 0x09, CHR 0x0A, CHR 0x0B, CHR 0x0C, CHR 0x0D, CHR 0x1C, CHR 0x1D, CHR 0x1E,
              CHR 0x1F, CHR 0x20, CHR 0x85, CHR 0xA0]"

definition strip :: "string \<Rightarrow> string" where
  "strip s = rev (dropWhile is_space (rev (dropWhile is_space s)))"

text \<open>\<open>sub in s\<close> on strings.\<close>

fun py_in :: "string \<Rightarrow> string \<Rightarrow> bool" where
  "py_in sub [] = (sub = [])"
| "py_in sub (c # cs) = (prefix sub (c # cs) \<or> py_in sub cs)"

text \<open>\<open>s.index(sub)\<close>: the lowest position of \<open>sub\<close>, \<open>ValueError\<close> when there is none.\<close>

fun str_index :: "string \<Rightarrow> string \<Rightarrow> error + nat" where
  "str_index [] sub = (if sub = [] then Inr 0 else Inl ValueError)"
| "str_index (c # cs) sub =
     (if prefix sub (c # cs) then Inr 0 else bind (str_index cs sub) (\<lambda>i. Inr (Suc i)))"

text \<open>\<open>output.split("\n")\<close>\<close>

fun split_lines :: "string \<Rightarrow> string list" where
  "split_lines [] = [[]]"
| "split_lines (c # cs) =
     (if c = CHR 0x0A then [] # split_lines cs
      else (case split_lines cs of [] \<Rightarrow> [[c]] | l # ls \<Rightarrow> (c # l) # ls))"

section \<open>Status Parser: the single-line grammar\<close>

text \<open>
  The parse tree Lark builds: a \<open>Tree\<close> has the rule name as \<open>data\<close> and a list of children,
  a \<open>Token\<close> has a terminal name and its text. Literals written in quotes in the grammar
  (\<open>"connected"\<close>, \<open>"primary"\<close>, \<open>"x"\<close>, \<open>"mm"\<close>, the brackets and the orientation words)
  are matched but left out of the tree.
\<close>

datatype lark = Tree string "lark list" | Token string string

text \<open>\<open>%ignore WS\<close> with \<open>common.WS\<close>, the regular expression \<open>[ \t\f\r\n]+\<close>.\<close>

definition is_ws :: "char \<Rightarrow> bool" where
  "is_ws c \<longleftrightarrow> c \<in> set [CHR 0x20, CHR 0x09, CHR 0x0C, CHR 0x0D, CHR 0x0A]"

text \<open>\<open>NUMBER\<close> is \<open>common.INT\<close>, one or more of \<open>"0".."9"\<close>.\<close>

definition is_digit :: "char \<Rightarrow> bool" where
  "is_digit c \<longleftrightarrow> c \<in> set ''0123456789''"

text \<open>\<open>TEXT: /[-a-zA-Z0-9]+/\<close>\<close>

definition is_text :: "char \<Rightarrow> bool" where
  "is_text c \<longleftrightarrow>
     c \<in> set ''-abcdefghijklmnopqrstuvwxyzABCDEFGHIJKLMNOPQRSTUVWXYZ0123456789''"

text \<open>
  The LALR parser runs a contextual lexer: at each point it skips white space and matches
  one of the terminals the parser can accept there. A terminal given by a character class is
  matched greedily and must not be empty; a literal is matched as a prefix. Each function
  returns the matched text with the rest of the line, or \<open>None\<close> when the terminal does not
  match.
\<close>

definition lex_regex :: "(char \<Rightarrow> bool) \<Rightarrow> string \<Rightarrow> (string \<times> string) option" where
  "lex_regex cls s =
     (let s' = dropWhile is_ws s
      in if takeWhile cls s' = [] then None else Some (takeWhile cls s', dropWhile cls s'))"

definition lex_literal :: "string \<Rightarrow> string \<Rightarrow> string option" where
  "lex_literal lit s =
     (let s' = dropWhile is_ws s
      in if prefix lit s' then Some (drop (length lit) s') else None)"

text \<open>\<open>OFFSET_DIRECTION: ("+"|"-")\<close>\<close>

definition lex_OFFSET_DIRECTION :: "string \<Rightarrow> (string \<times> string) option" where
  "lex_OFFSET_DIRECTION s =
     (case lex_literal ''+'' s of
        Some r \<Rightarrow> Some (''+'', r)
      | None \<Rightarrow> (case lex_literal ''-'' s of Some r \<Rightarrow> Some (''-'', r) | None \<Rightarrow> None))"

text \<open>\<open>output: TEXT\<close>\<close>

definition p_output :: "string \<Rightarrow> (lark \<times> string) option" where
  "p_output s =
     (case lex_regex is_text s of
        None \<Rightarrow> None
      | Some (v, r) \<Rightarrow> Some (Tree ''output'' [Token ''TEXT'' v], r))"

text \<open>\<open>pixels: NUMBER\<close>\<close>

definition p_pixels :: "string \<Rightarrow> (lark \<times> string) option" where
  "p_pixels s =
     (case lex_regex is_digit s of
        None \<Rightarrow> None
      | Some (v, r) \<Rightarrow> Some (Tree ''pixels'' [Token ''NUMBER'' v], r))"

text \<open>\<open>offset_value: NUMBER\<close>\<close>

definition p_offset_value :: "string \<Rightarrow> (lark \<times> string) option" where
  "p_offset_value s =
     (case lex_regex is_digit s of
        None \<Rightarrow> None
      | Some (v, r) \<Rightarrow> Some (Tree ''offset_value'' [Token ''NUMBER'' v], r))"

text \<open>\<open>offset: OFFSET_DIRECTION offset_value\<close>\<close>

definition p_offset :: "string \<Rightarrow> (lark \<times> string) option" where
  "p_offset s =
     (case lex_OFFSET_DIRECTION s of
        None \<Rightarrow> None
      | Some (d, r) \<Rightarrow>
          (case p_offset_value r of
             None \<Rightarrow> None
           | Some (v, r') \<Rightarrow> Some (Tree ''offset'' [Token ''OFFSET_DIRECTION'' d, v], r')))"

text \<open>\<open>screen_offset: offset offset\<close>\<close>

definition p_screen_offset :: "string \<Rightarrow> (lark \<times> string) option" where
  "p_screen_offset s =
     (case p_offset s of
        None \<Rightarrow> None
      | Some (x, r) \<Rightarrow>
          (case p_offset r of
             None \<Rightarrow> None
           | Some (y, r') \<Rightarrow> Some (Tree ''screen_offset'' [x, y], r')))"

text \<open>\<open>resolution_offset: pixels "x" pixels screen_offset\<close>\<close>

definition p_resolution_offset :: "string \<Rightarrow> (lark \<times> string) option" where
  "p_resolution_offset s =
     (case p_pixels s of
        None \<Rightarrow> None
      | Some (w, r1) \<Rightarrow>
          (case lex_literal ''x'' r1 of
             None \<Rightarrow> None
           | Some r2 \<Rightarrow>
               (case p_pixels r2 of
                  None \<Rightarrow> None
                | Some (h, r3) \<Rightarrow>
                    (case p_screen_offset r3 of
                       None \<Rightarrow> None
                     | Some (so, r4) \<Rightarrow> Some (Tree ''resolution_offset'' [w, h, so], r4)))))"

text \<open>
  \<open>orientation: "(" ("normal"|"left"|"inverted"|"right"|"x"|"axis"|"y")+ ")"\<close>. No two of
  the words start with the same character, so at most one of them matches.
\<close>

definition lex_word :: "string \<Rightarrow> string option" where
  "lex_word s =
     (case filter (\<lambda>w. lex_literal w s \<noteq> None)
             [''normal'', ''left'', ''inverted'', ''right'', ''x'', ''axis'', ''y''] of
        [] \<Rightarrow> None
      | w # _ \<Rightarrow> lex_literal w s)"

lemma lex_literal_shorter:
  assumes "lex_literal lit s = Some r" "lit \<noteq> []"
  shows "length r < length s"
proof -
  from assms have p: "prefix lit (dropWhile is_ws s)" and r: "r = drop (length lit) (dropWhile is_ws s)"
    by (auto simp add: lex_literal_def Let_def split: if_splits)
  from p assms(2) have "dropWhile is_ws s \<noteq> []"
    by (auto simp del: dropWhile_eq_Nil_conv)
  with r assms(2) have "length r < length (dropWhile is_ws s)" by simp
  also have "\<dots> \<le> length s" by (rule length_dropWhile_le)
  finally show ?thesis .
qed

lemma lex_word_shorter: "lex_word s = Some r \<Longrightarrow> length r < length s"
proof -
  assume a: "lex_word s = Some r"
  then obtain w ws where f: "filter (\<lambda>w. lex_literal w s \<noteq> None)
      [''normal'', ''left'', ''inverted'', ''right'', ''x'', ''axis'', ''y''] = w # ws"
    and l: "lex_literal w s = Some r"
    by (auto simp add: lex_word_def split: list.splits)
  have "w \<in> set (w # ws)" by simp
  then have "w \<in> set [''normal'', ''left'', ''inverted'', ''right'', ''x'', ''axis'', ''y'']"
    unfolding f [symmetric] by (simp only: set_filter) blast
  then have "w \<noteq> []" by auto
  with l show ?thesis by (rule lex_literal_shorter)
qed

text \<open>The words after the first one, up to the closing bracket.\<close>

function more_words :: "string \<Rightarrow> string" where
  "more_words s = (case lex_word s of None \<Rightarrow> s | Some r \<Rightarrow> more_words r)"
  by pat_completeness auto
termination
  by (relation "measure length") (auto simp add: lex_word_shorter)

declare more_words.simps [simp del]

definition p_orientation :: "string \<Rightarrow> (lark \<times> string) option" where
  "p_orientation s =
     (case lex_literal ''('' s of
        None \<Rightarrow> None
      | Some r1 \<Rightarrow>
          (case lex_word r1 of
             None \<Rightarrow> None
           | Some r2 \<Rightarrow>
               (case lex_literal '')'' (more_words r2) of
                  None \<Rightarrow> None
                | Some r3 \<Rightarrow> Some (Tree ''orientation'' [], r3))))"

text \<open>\<open>length: NUMBER "mm"\<close>\<close>

definition p_length :: "string \<Rightarrow> (lark \<times> string) option" where
  "p_length s =
     (case lex_regex is_digit s of
        None \<Rightarrow> None
      | Some (v, r) \<Rightarrow>
          (case lex_literal ''mm'' r of
             None \<Rightarrow> None
           | Some r' \<Rightarrow> Some (Tree ''length'' [Token ''NUMBER'' v], r')))"

text \<open>\<open>screen_size: length "x" length\<close>\<close>

definition p_screen_size :: "string \<Rightarrow> (lark \<times> string) option" where
  "p_screen_size s =
     (case p_length s of
        None \<Rightarrow> None
      | Some (a, r1) \<Rightarrow>
          (case lex_literal ''x'' r1 of
             None \<Rightarrow> None
           | Some r2 \<Rightarrow>
               (case p_length r2 of
                  None \<Rightarrow> None
                | Some (b, r3) \<Rightarrow> Some (Tree ''screen_size'' [a, b], r3))))"

text \<open>
  An optional rule of \<open>start\<close> is entered exactly when the next token is the \<open>NUMBER\<close> it
  begins with, and must then match in full; this is the decision the LALR(1) parser takes on
  its one token of lookahead.
\<close>

definition p_optional ::
  "(string \<Rightarrow> (lark \<times> string) option) \<Rightarrow> string \<Rightarrow> (lark list \<times> string) option" where
  "p_optional p s =
     (if lex_regex is_digit s = None then Some ([], s)
      else (case p s of None \<Rightarrow> None | Some (t, r) \<Rightarrow> Some ([t], r)))"

text \<open>
  \<open>start: output "connected" "primary"? resolution_offset? orientation screen_size?\<close>,
  followed by the end of the line.
\<close>

definition p_start :: "string \<Rightarrow> lark option" where
  "p_start s =
     (case p_output s of
        None \<Rightarrow> None
      | Some (out, r1) \<Rightarrow>
          (case lex_literal ''connected'' r1 of
             None \<Rightarrow> None
           | Some r2 \<Rightarrow>
               (case p_optional p_resolution_offset
                       (case lex_literal ''primary'' r2 of None \<Rightarrow> r2 | Some r \<Rightarrow> r) of
                  None \<Rightarrow> None
                | Some (ro, r3) \<Rightarrow>
                    (case p_orientation r3 of
                       None \<Rightarrow> None
                     | Some (ori, r4) \<Rightarrow>
                         (case p_optional p_screen_size r4 of
                            None \<Rightarrow> None
                          | Some (sz, r5) \<Rightarrow>
                              (if dropWhile is_ws r5 = []
                               then Some (Tree ''start'' ([out] @ ro @ [ori] @ sz))
                               else None))))))"

text \<open>\<open>parser.parse(line)\<close>: the tree, or the exception Lark raises on any other line.\<close>

definition lark_parse :: "string \<Rightarrow> error + lark" where
  "lark_parse line = (case p_start line of None \<Rightarrow> Inl UnexpectedInput | Some t \<Rightarrow> Inr t)"

section \<open>Status Parser: \<open>parse_display\<close> and \<open>parse_offset\<close>\<close>

text \<open>
  Attribute access on tree nodes: a \<open>Token\<close> is a string with a \<open>value\<close> and no
  \<open>children\<close>, a \<open>Tree\<close> has \<open>children\<close> and no \<open>value\<close>, \<open>None\<close> has neither.
\<close>

definition children :: "lark \<Rightarrow> error + lark list" where
  "children t = (case t of Tree d cs \<Rightarrow> Inr cs | Token k v \<Rightarrow> Inl AttributeError)"

definition opt_children :: "lark option \<Rightarrow> error + lark list" where
  "opt_children t = (case t of None \<Rightarrow> Inl AttributeError | Some t' \<Rightarrow> children t')"

definition token_value :: "lark \<Rightarrow> error + string" where
  "token_value t = (case t of Token k v \<Rightarrow> Inr v | Tree d cs \<Rightarrow> Inl AttributeError)"

text \<open>The left operand of \<open>+ "x"\<close> must be a string; a \<open>Token\<close> is one.\<close>

definition as_str :: "lark \<Rightarrow> error + string" where
  "as_str t = (case t of Token k v \<Rightarrow> Inr v | Tree d cs \<Rightarrow> Inl TypeError)"

definition filter_tree :: "lark list \<Rightarrow> string \<Rightarrow> lark list" where
  "filter_tree elements element =
     filter (\<lambda>entry. case entry of Tree d cs \<Rightarrow> d = element | Token k v \<Rightarrow> False) elements"

definition first :: "'a list \<Rightarrow> 'a option" where
  "first elements = (case elements of [] \<Rightarrow> None | e # _ \<Rightarrow> Some e)"

definition filter_tree_single :: "lark list \<Rightarrow> string \<Rightarrow> lark option" where
  "filter_tree_single elements element = first (filter_tree elements element)"

definition parse_offset :: "lark \<Rightarrow> error + Offset" where
  "parse_offset direction_offset =
     bind (children direction_offset) (\<lambda>cs.
     bind (py_index cs 0) (\<lambda>c0. bind (token_value c0) (\<lambda>dir.
     bind (py_index cs 1) (\<lambda>c1. bind (children c1) (\<lambda>vs.
     bind (py_index vs 0) (\<lambda>v0. bind (token_value v0) (\<lambda>off.
       Inr \<lparr>direction = dir, offset = off\<rparr>)))))))"

definition parse_display :: "lark \<Rightarrow> error + Display" where
  "parse_display display =
     bind (children display) (\<lambda>dcs.
     bind (opt_children (filter_tree_single dcs ''output'')) (\<lambda>ocs.
     bind (py_index ocs 0) (\<lambda>o0. bind (token_value o0) (\<lambda>display_name.
     case filter_tree_single dcs ''resolution_offset'' of
       Some resolution_offset \<Rightarrow>
         bind (children resolution_offset) (\<lambda>rcs.
         bind (py_index (filter_tree rcs ''pixels'') 0) (\<lambda>p0. bind (children p0) (\<lambda>p0cs.
         bind (py_index p0cs 0) (\<lambda>w. bind (as_str w) (\<lambda>ws.
         bind (py_index (filter_tree rcs ''pixels'') 1) (\<lambda>p1. bind (children p1) (\<lambda>p1cs.
         bind (py_index p1cs 0) (\<lambda>h. bind (as_str h) (\<lambda>hs.
         bind (opt_children (filter_tree_single rcs ''screen_offset'')) (\<lambda>offs.
         bind (py_index offs 0) (\<lambda>xo. bind (parse_offset xo) (\<lambda>x_off.
         bind (py_index offs 1) (\<lambda>yo. bind (parse_offset yo) (\<lambda>y_off.
           Inr (Display_init display_name (Some (ws @ ''x'' @ hs)) (Some x_off) (Some y_off)
                  None)))))))))))))))
     | None \<Rightarrow> Inr (Display_init display_name None None None None)))))"

section \<open>Status Parser: \<open>DisplayParser.parse\<close>\<close>

record parser_state =
  parsed_displays :: "Display list"
  edid_buffer :: "string list"
  collect_lines :: bool
  attribute_indentation :: nat
  last_connected :: bool

definition initial_state :: parser_state where
  "initial_state =
     \<lparr>parsed_displays = [], edid_buffer = [], collect_lines = False, attribute_indentation = 0,
      last_connected = False\<rparr>"

text \<open>
  The indentation the loop computes for a line in collection mode: the reference
  indentation itself when the line starts with a blank, else the number of leading tabs.
\<close>

definition indentation_of :: "nat \<Rightarrow> string \<Rightarrow> nat" where
  "indentation_of attr line =
     (if prefix '' '' line then attr else length (takeWhile (\<lambda>c. c = CHR 0x09) line))"

text \<open>
  One iteration of \<open>for line in lines\<close>. Assigning the edid of
  \<open>parsed_displays[len(parsed_displays) - 1]\<close> raises \<open>IndexError\<close> on an empty list.
\<close>

definition parse_step :: "parser_state \<Rightarrow> string \<Rightarrow> error + parser_state" where
  "parse_step st line =
     (if py_in ''disconnected'' line then Inr (st\<lparr>last_connected := False\<rparr>)
      else if py_in ''connected'' line then
        bind (lark_parse line) (\<lambda>display. bind (parse_display display) (\<lambda>parsed_display.
          Inr (st\<lparr>parsed_displays := parsed_displays st @ [parsed_display],
                  last_connected := True\<rparr>)))
      else if last_connected st \<and> py_in ''EDID'' line then
        bind (str_index line ''EDID'') (\<lambda>i.
          Inr (st\<lparr>edid_buffer := [], attribute_indentation := i, collect_lines := True\<rparr>))
      else if collect_lines st then
        (if attribute_indentation st = indentation_of (attribute_indentation st) line then
           bind (py_index (parsed_displays st) (int (length (parsed_displays st)) - 1)) (\<lambda>d.
             Inr (st\<lparr>collect_lines := False,
                     parsed_displays := (parsed_displays st)
                       [length (parsed_displays st) - 1 := d\<lparr>edid := concat (edid_buffer st)\<rparr>]\<rparr>))
         else Inr (st\<lparr>edid_buffer := edid_buffer st @ [strip line]\<rparr>))
      else Inr st)"

fun parse_loop :: "parser_state \<Rightarrow> string list \<Rightarrow> error + parser_state" where
  "parse_loop st [] = Inr st"
| "parse_loop st (line # lines) = bind (parse_step st line) (\<lambda>st'. parse_loop st' lines)"

text \<open>
  \<open>parse\<close> applied to the text \<open>ProcessUtils.run("xrandr --props")\<close> returned; running that
  command is the one effect of the source function.
\<close>

definition parse :: "string \<Rightarrow> error + Display list" where
  "parse output =
     bind (parse_loop initial_state (split_lines output)) (\<lambda>st. Inr (parsed_displays st))"

section \<open>Status Parser: the lines of the grammar, written out\<close>

text \<open>
  The lines that match the single-line grammar, described from the side of the status command
  (\<open><name> connected [primary] [<W>x<H>+<X>+<Y>] (<flags>) [<W>mm x <H>mm]\<close>) rather than
  from the parser: the tokens of the \<open>start\<close> rule in order, each with the white space
  written in front of it. These definitions are what the parser is compared with; the parser
  itself does not use them.

  A \<open>spaced\<close> token is the white space in front of a token, then its text.
\<close>

type_synonym spaced = "string \<times> string"

definition spaced_text :: "spaced \<Rightarrow> string" where
  "spaced_text t = fst t @ snd t"

text \<open>A run of white space as \<open>%ignore WS\<close> skips it; it may be empty.\<close>

definition gap :: "string \<Rightarrow> bool" where
  "gap g \<longleftrightarrow> list_all is_ws g"

text \<open>The text of a \<open>NUMBER\<close> and of an \<open>OFFSET_DIRECTION\<close>.\<close>

definition number :: "string \<Rightarrow> bool" where
  "number s \<longleftrightarrow> s \<noteq> [] \<and> list_all is_digit s"

definition sign :: "string \<Rightarrow> bool" where
  "sign s \<longleftrightarrow> s = ''+'' \<or> s = ''-''"

text \<open>One of the orientation words, with the white space in front of it.\<close>

definition flag :: "spaced \<Rightarrow> bool" where
  "flag f \<longleftrightarrow>
     gap (fst f) \<and> snd f \<in> set [''normal'', ''left'', ''inverted'', ''right'', ''x'', ''axis'', ''y'']"

text \<open>
  The optional \<open>resolution_offset\<close> part: width, the white space before \<open>x\<close>, height, and
  direction and value of the two offsets. The optional \<open>screen_size\<close> part: first length,
  the white space before its \<open>mm\<close> and before \<open>x\<close>, second length, the white space before
  its \<open>mm\<close>.
\<close>

type_synonym resolution_offset_text =
  "spaced \<times> string \<times> spaced \<times> spaced \<times> spaced \<times> spaced \<times> spaced"

type_synonym screen_size_text = "spaced \<times> string \<times> string \<times> spaced \<times> string"

text \<open>
  A whole line: the output name, the white space before \<open>connected\<close>, before \<open>primary\<close>
  when it is there, the optional resolution and offsets, the white space before the opening
  bracket, the orientation words, the white space before the closing bracket, the optional
  screen size, and the white space at the end of the line.
\<close>

record connected_line =
  ln_name :: spaced
  ln_connected :: string
  ln_primary :: "string option"
  ln_resolution_offset :: "resolution_offset_text option"
  ln_open :: string
  ln_flags :: "spaced list"
  ln_close :: string
  ln_screen_size :: "screen_size_text option"
  ln_end :: string

definition resolution_offset_text :: "resolution_offset_text \<Rightarrow> string" where
  "resolution_offset_text q =
     (case q of (w, gx, h, dx, vx, dy, vy) \<Rightarrow>
        spaced_text w @ gx @ ''x'' @ spaced_text h @ spaced_text dx @ spaced_text vx @
        spaced_text dy @ spaced_text vy)"

definition screen_size_text :: "screen_size_text \<Rightarrow> string" where
  "screen_size_text q =
     (case q of (a, gm, gx, b, gm') \<Rightarrow>
        spaced_text a @ gm @ ''mm'' @ gx @ ''x'' @ spaced_text b @ gm' @ ''mm'')"

definition line_text :: "connected_line \<Rightarrow> string" where
  "line_text L =
     spaced_text (ln_name L) @ ln_connected L @ ''connected'' @
     (case ln_primary L of None \<Rightarrow> [] | Some g \<Rightarrow> g @ ''primary'') @
     (case ln_resolution_offset L of None \<Rightarrow> [] | Some q \<Rightarrow> resolution_offset_text q) @
     ln_open L @ ''('' @ concat (map spaced_text (ln_flags L)) @ ln_close L @ '')'' @
     (case ln_screen_size L of None \<Rightarrow> [] | Some q \<Rightarrow> screen_size_text q) @
     ln_end L"

text \<open>
  The line matches the grammar: every gap is white space, the name is a non-empty \<open>TEXT\<close>
  set off from \<open>connected\<close> by at least one blank (the lexer matches \<open>TEXT\<close> greedily), the
  numbers are non-empty digit strings, the directions are signs, and there is at least one
  orientation word.
\<close>

definition resolution_offset_ok :: "resolution_offset_text \<Rightarrow> bool" where
  "resolution_offset_ok q \<longleftrightarrow>
     (case q of (w, gx, h, dx, vx, dy, vy) \<Rightarrow>
        gap (fst w) \<and> number (snd w) \<and> gap gx \<and> gap (fst h) \<and> number (snd h)
        \<and> gap (fst dx) \<and> sign (snd dx) \<and> gap (fst vx) \<and> number (snd vx)
        \<and> gap (fst dy) \<and> sign (snd dy) \<and> gap (fst vy) \<and> number (snd vy))"

definition screen_size_ok :: "screen_size_text \<Rightarrow> bool" where
  "screen_size_ok q \<longleftrightarrow>
     (case q of (a, gm, gx, b, gm') \<Rightarrow>
        gap (fst a) \<and> number (snd a) \<and> gap gm \<and> gap gx \<and> gap (fst b) \<and> number (snd b)
        \<and> gap gm')"

definition line_matches :: "connected_line \<Rightarrow> bool" where
  "line_matches L \<longleftrightarrow>
     gap (fst (ln_name L)) \<and> snd (ln_name L) \<noteq> [] \<and> list_all is_text (snd (ln_name L))
     \<and> gap (ln_connected L) \<and> ln_connected L \<noteq> []
     \<and> (case ln_primary L of None \<Rightarrow> True | Some g \<Rightarrow> gap g)
     \<and> (case ln_resolution_offset L of None \<Rightarrow> True | Some q \<Rightarrow> resolution_offset_ok q)
     \<and> gap (ln_open L) \<and> ln_flags L \<noteq> [] \<and> list_all flag (ln_flags L) \<and> gap (ln_close L)
     \<and> (case ln_screen_size L of None \<Rightarrow> True | Some q \<Rightarrow> screen_size_ok q)
     \<and> gap (ln_end L)"

text \<open>The (name, resolution, offsets) tuple written on the line, as a \<open>Display\<close>.\<close>

definition line_display :: "connected_line \<Rightarrow> Display" where
  "line_display L =
     \<lparr>name = snd (ln_name L),
      resolution =
        map_option (\<lambda>(w, gx, h, dx, vx, dy, vy). snd w @ ''x'' @ snd h) (ln_resolution_offset L),
      x_offset =
        map_option (\<lambda>(w, gx, h, dx, vx, dy, vy). \<lparr>direction = snd dx, offset = snd vx\<rparr>)
          (ln_resolution_offset L),
      y_offset =
        map_option (\<lambda>(w, gx, h, dx, vx, dy, vy). \<lparr>direction = snd dy, offset = snd vy\<rparr>)
          (ln_resolution_offset L),
      edid = []\<rparr>"

text \<open>The parse tree of such a line.\<close>

definition ro_tree :: "resolution_offset_text \<Rightarrow> lark" where
  "ro_tree q = (case q of (w, gx, h, dx, vx, dy, vy) \<Rightarrow>
     Tree ''resolution_offset''
      [Tree ''pixels'' [Token ''NUMBER'' (snd w)], Tree ''pixels'' [Token ''NUMBER'' (snd h)],
       Tree ''screen_offset''
        [Tree ''offset'' [Token ''OFFSET_DIRECTION'' (snd dx),
                          Tree ''offset_value'' [Token ''NUMBER'' (snd vx)]],
         Tree ''offset'' [Token ''OFFSET_DIRECTION'' (snd dy),
                          Tree ''offset_value'' [Token ''NUMBER'' (snd vy)]]]])"

definition sz_tree :: "screen_size_text \<Rightarrow> lark" where
  "sz_tree q = (case q of (a, gm, gx, b, gm') \<Rightarrow>
     Tree ''screen_size''
       [Tree ''length'' [Token ''NUMBER'' (snd a)], Tree ''length'' [Token ''NUMBER'' (snd b)]])"

definition line_tree :: "connected_line \<Rightarrow> lark" where
  "line_tree L =
     Tree ''start'' ([Tree ''output'' [Token ''TEXT'' (snd (ln_name L))]] @
       (case ln_resolution_offset L of None \<Rightarrow> [] | Some q \<Rightarrow> [ro_tree q]) @
       [Tree ''orientation'' []] @
       (case ln_screen_size L of None \<Rightarrow> [] | Some q \<Rightarrow> [sz_tree q]))"

text \<open>The line of the internal panel used in the concrete evaluations, and its layout.\<close>

definition eDP1_line :: string where
  "eDP1_line = ''eDP-1 connected primary 1920x1080+0+0 (normal left inverted right x axis y) 310mm x 170mm''"

definition eDP1_layout :: connected_line where
  "eDP1_layout =
     \<lparr>ln_name = ('''', ''eDP-1''), ln_connected = '' '', ln_primary = Some '' '',
      ln_resolution_offset =
        Some (('' '', ''1920''), '''', ('''', ''1080''), ('''', ''+''), ('''', ''0''),
              ('''', ''+''), ('''', ''0'')),
      ln_open = '' '',
      ln_flags = [('''', ''normal''), ('' '', ''left''), ('' '', ''inverted''), ('' '', ''right''),
                  ('' '', ''x''), ('' '', ''axis''), ('' '', ''y'')],
      ln_close = '''',
      ln_screen_size = Some (('' '', ''310''), '''', '' '', ('' '', ''170''), ''''),
      ln_end = ''''\<rparr>"

text \<open>The characters of an EDID continuation line: hexadecimal digits.\<close>

definition is_hex :: "char \<Rightarrow> bool" where
  "is_hex c \<longleftrightarrow> c \<in> set ''0123456789abcdefABCDEF''"

section \<open>Command Builder: properties\<close>

lemma bind_Inr [simp]: "bind (Inr x) f = f x"
  by (simp add: bind_def)

lemma bind_Inl [simp]: "bind (Inl e) f = Inl e"
  by (simp add: bind_def)

lemma py_index_nat: "i < length xs \<Longrightarrow> py_index xs (int i) = Inr (xs ! i)"
  by (simp add: py_index_def)

lemma py_index_pred: "0 < i \<Longrightarrow> i < length xs \<Longrightarrow> py_index xs (int i - 1) = Inr (xs ! (i - 1))"
  using py_index_nat [of "i - 1" xs] by simp

lemma py_index_minus_one: "xs \<noteq> [] \<Longrightarrow> py_index xs (- 1) = Inr (last xs)"
  by (simp add: py_index_def last_conv_nth nat_diff_distrib' Suc_leI)

text \<open>
  When every iteration appends a text that depends on the index only, the loop returns the
  initial command followed by those texts in index order.
\<close>

lemma configure_loop_concat:
  assumes "\<And>c i. i < length xs \<Longrightarrow>
             configure_step ds m ea dir c (k + i, xs ! i) = Inr (c @ g (k + i))"
  shows "configure_loop ds m ea dir (enumerate k xs) c = Inr (c @ concat (map g [k..<k + length xs]))"
  using assms
proof (induction xs arbitrary: k c)
  case Nil
  then show ?case by simp
next
  case (Cons x xs)
  have first: "configure_step ds m ea dir c (k, x) = Inr (c @ g k)"
    using Cons.prems [of 0 c] by simp
  have rest: "\<And>c i. i < length xs \<Longrightarrow>
      configure_step ds m ea dir c (Suc k + i, xs ! i) = Inr (c @ g (Suc k + i))"
    using Cons.prems [of "Suc _"] by simp
  have "configure_loop ds m ea dir (enumerate (Suc k) xs) (c @ g k) =
          Inr ((c @ g k) @ concat (map g [Suc k..<Suc k + length xs]))"
    by (rule Cons.IH [OF rest])
  moreover have "[k..<k + length (x # xs)] = k # [Suc k..<Suc k + length xs]"
    by (subst upt_rec) simp
  ultimately show ?case
    using first by (simp del: upt_Suc)
qed

lemma py_index_zero: "xs \<noteq> [] \<Longrightarrow> py_index xs 0 = Inr (xs ! 0)"
  by (simp add: py_index_def)

text \<open>What one iteration appends, mode by mode.\<close>

lemma step_CLONE:
  assumes "i < length ds"
  shows "configure_step ds CLONE ea dir c (i, ds ! i) =
    Inr (c @ '' --output '' @ name (ds ! i) @
      (if i = 0 then '' --primary --auto'' else '' --auto --same-as '' @ name (ds ! (i - 1))))"
  using assms by (simp add: configure_step_def py_index_pred)

lemma step_INTERNAL_ONLY:
  "configure_step ds INTERNAL_ONLY ea dir c (i, d) =
    Inr (c @ '' --output '' @ name d @ (if i = 0 then '' --primary --auto'' else '' --off''))"
  by (simp add: configure_step_def)

lemma step_INTERNAL_EXTEND:
  assumes "i < length ds"
  shows "configure_step ds INTERNAL_EXTEND ea dir c (i, ds ! i) =
    Inr (c @ '' --output '' @ name (ds ! i) @
      (if i = 0 then '' --primary --auto''
       else if i = 1 then '' --auto --'' @ dir @ ''-of '' @ name (ds ! 0)
       else if ea then '' --auto --'' @ dir @ ''-of '' @ name (ds ! (i - 1))
       else '' --off''))"
proof -
  have "ds \<noteq> []" using assms by auto
  then show ?thesis
    using assms by (simp add: configure_step_def py_index_pred py_index_zero)
qed

text \<open>
  In \<open>EXTERNAL_ONLY\<close> mode the iteration for index 0 appends \<open>--off\<close> and then runs on into
  the \<open>if idx == 1 ... elif extend_all ... else\<close> chain, where \<open>displays[idx - 1]\<close> is
  \<open>displays[-1]\<close>, the last display.
\<close>

lemma step_EXTERNAL_ONLY:
  assumes "i < length ds"
  shows "configure_step ds EXTERNAL_ONLY ea dir c (i, ds ! i) =
    Inr (c @ '' --output '' @ name (ds ! i) @
      (if i = 0 then '' --off'' else []) @
      (if i = 1 then '' --primary --auto''
       else if ea then '' --auto --'' @ dir @ ''-of '' @ name (if i = 0 then last ds else ds ! (i - 1))
       else '' --off''))"
proof -
  have "ds \<noteq> []" using assms by auto
  then show ?thesis
    using assms by (simp add: configure_step_def py_index_pred py_index_minus_one)
qed

lemma configure_CLONE:
  "configure ds CLONE ea dir =
     Inr (''xrandr'' @ concat (map (\<lambda>i. '' --output '' @ name (ds ! i) @
       (if i = 0 then '' --primary --auto'' else '' --auto --same-as '' @ name (ds ! (i - 1))))
       [0..<length ds]))" (is "_ = Inr (_ @ concat (map ?g _))")
proof -
  have "configure_loop ds CLONE ea dir (enumerate 0 ds) ''xrandr'' =
          Inr (''xrandr'' @ concat (map ?g [0..<0 + length ds]))"
    by (rule configure_loop_concat) (simp add: step_CLONE)
  then show ?thesis by (simp add: configure_def)
qed

lemma configure_INTERNAL_ONLY:
  "configure ds INTERNAL_ONLY ea dir =
     Inr (''xrandr'' @ concat (map (\<lambda>i. '' --output '' @ name (ds ! i) @
       (if i = 0 then '' --primary --auto'' else '' --off'')) [0..<length ds]))"
  (is "_ = Inr (_ @ concat (map ?g _))")
proof -
  have "configure_loop ds INTERNAL_ONLY ea dir (enumerate 0 ds) ''xrandr'' =
          Inr (''xrandr'' @ concat (map ?g [0..<0 + length ds]))"
    by (rule configure_loop_concat) (simp add: step_INTERNAL_ONLY)
  then show ?thesis by (simp add: configure_def)
qed

lemma configure_EXTERNAL_ONLY:
  "configure ds EXTERNAL_ONLY ea dir =
     Inr (''xrandr'' @ concat (map (\<lambda>i. '' --output '' @ name (ds ! i) @
       (if i = 0 then '' --off'' else []) @
       (if i = 1 then '' --primary --auto''
        else if ea then '' --auto --'' @ dir @ ''-of '' @ name (if i = 0 then last ds else ds ! (i - 1))
        else '' --off'')) [0..<length ds]))"
  (is "_ = Inr (_ @ concat (map ?g _))")
proof -
  have "configure_loop ds EXTERNAL_ONLY ea dir (enumerate 0 ds) ''xrandr'' =
          Inr (''xrandr'' @ concat (map ?g [0..<0 + length ds]))"
    by (rule configure_loop_concat) (simp add: step_EXTERNAL_ONLY)
  then show ?thesis by (simp add: configure_def)
qed

text \<open>
  C1 (the code departs from the claim). In \<open>EXTERNAL_ONLY\<close> mode with \<open>extend_all\<close> set, the
  text emitted for index 0 is not a plain powered-off directive: after \<open>--off\<close> it also carries
  \<open>--auto --right-of\<close> naming the last display. Evaluated on an internal and one external
  display.
\<close>

theorem configure_EXTERNAL_ONLY_extend_all_eval:
  "configure [eDP1, HDMI1] EXTERNAL_ONLY True ''right'' =
     Inr ''xrandr --output eDP-1 --off --auto --right-of HDMI-1 --output HDMI-1 --primary --auto''"
  by (simp add: configure_def configure_step_def py_index_def eDP1_def HDMI1_def Display_init_def)

text \<open>
  With \<open>extend_all\<close> unset, the two-display example of the claim yields \<open>--off\<close> twice for
  index 0 and \<open>--primary --auto\<close> for index 1.
\<close>

lemma configure_EXTERNAL_ONLY_two_displays_eval:
  "configure [eDP1, HDMI1] EXTERNAL_ONLY False ''right'' =
     Inr ''xrandr --output eDP-1 --off --off --output HDMI-1 --primary --auto''"
  by (simp add: configure_def configure_step_def py_index_def eDP1_def HDMI1_def Display_init_def)

text \<open>
  C2 (the code departs from the claim). There is one \<open>--output\<close> group per display, in input
  order, in every mode (lemmas \<open>configure_CLONE\<close>, \<open>configure_INTERNAL_ONLY\<close>,
  \<open>configure_EXTERNAL_ONLY\<close> and theorem \<open>configure_INTERNAL_EXTEND\<close>), but a positional
  dependency does not always name an earlier display: in \<open>EXTERNAL_ONLY\<close> mode with
  \<open>extend_all\<close> set, the group of index 0 is positioned relative to the display at the last
  index. Evaluated on three displays, where the group of \<open>eDP-1\<close> (index 0) names \<open>DP-2\<close>
  (index 2).
\<close>

theorem configure_EXTERNAL_ONLY_forward_reference:
  "configure [eDP1, HDMI1, DP2] EXTERNAL_ONLY True ''left'' =
     Inr ''xrandr --output eDP-1 --off --auto --left-of DP-2 --output HDMI-1 --primary --auto --output DP-2 --auto --left-of HDMI-1''"
  by (simp add: configure_def configure_step_def py_index_def eDP1_def HDMI1_def DP2_def
      Display_init_def)

text \<open>
  C5. In \<open>INTERNAL_EXTEND\<close> mode, for every display list, \<open>extend_all\<close> flag and direction, the
  command is \<open>xrandr\<close> followed by one group per display in input order: index 0 is
  \<open>--primary --auto\<close>; index 1 is \<open>--auto\<close> positioned in the given direction of display 0;
  an index above 1 is \<open>--auto\<close> positioned in the given direction of display \<open>i - 1\<close> when
  \<open>extend_all\<close> is set, and \<open>--off\<close> otherwise. In particular, three displays with
  \<open>extend_all\<close> and direction right give primary+auto, auto right-of display 0,
  auto right-of display 1.
\<close>

theorem configure_INTERNAL_EXTEND:
  "configure ds INTERNAL_EXTEND ea dir =
     Inr (''xrandr'' @ concat (map (\<lambda>i. '' --output '' @ name (ds ! i) @
       (if i = 0 then '' --primary --auto''
        else if i = 1 then '' --auto --'' @ dir @ ''-of '' @ name (ds ! 0)
        else if ea then '' --auto --'' @ dir @ ''-of '' @ name (ds ! (i - 1))
        else '' --off'')) [0..<length ds]))
   \<and> configure [d0, d1, d2] INTERNAL_EXTEND True ''right'' =
     Inr (''xrandr'' @ '' --output '' @ name d0 @ '' --primary --auto''
          @ '' --output '' @ name d1 @ '' --auto --right-of '' @ name d0
          @ '' --output '' @ name d2 @ '' --auto --right-of '' @ name d1)"
proof -
  have general: "configure ds INTERNAL_EXTEND ea dir =
     Inr (''xrandr'' @ concat (map (\<lambda>i. '' --output '' @ name (ds ! i) @
       (if i = 0 then '' --primary --auto''
        else if i = 1 then '' --auto --'' @ dir @ ''-of '' @ name (ds ! 0)
        else if ea then '' --auto --'' @ dir @ ''-of '' @ name (ds ! (i - 1))
        else '' --off'')) [0..<length ds]))" (is "_ = Inr (_ @ concat (map ?g _))")
  proof -
    have "configure_loop ds INTERNAL_EXTEND ea dir (enumerate 0 ds) ''xrandr'' =
            Inr (''xrandr'' @ concat (map ?g [0..<0 + length ds]))"
      by (rule configure_loop_concat) (simp add: step_INTERNAL_EXTEND)
    then show ?thesis by (simp add: configure_def)
  qed
  have "configure [d0, d1, d2] INTERNAL_EXTEND True ''right'' =
     Inr (''xrandr'' @ '' --output '' @ name d0 @ '' --primary --auto''
          @ '' --output '' @ name d1 @ '' --auto --right-of '' @ name d0
          @ '' --output '' @ name d2 @ '' --auto --right-of '' @ name d1)"
    by (simp add: configure_def configure_step_def py_index_def)
  with general show ?thesis by blast
qed

theorem configure_INTERNAL_EXTEND_witness:
  "configure [eDP1, HDMI1, DP2] INTERNAL_EXTEND True ''right'' =
     Inr ''xrandr --output eDP-1 --primary --auto --output HDMI-1 --auto --right-of eDP-1 --output DP-2 --auto --right-of HDMI-1''"
  using configure_INTERNAL_EXTEND [of "[eDP1, HDMI1, DP2]" True "''right''" eDP1 HDMI1 DP2]
  by (simp add: eDP1_def HDMI1_def DP2_def Display_init_def upt_rec)

section \<open>Setup Wizard: properties\<close>

lemma rotate_list_one: "rotate_list l 1 = (if l = [] then [] else last l # butlast l)"
proof (cases l rule: rev_cases)
  case Nil
  then show ?thesis by (simp add: rotate_list_def py_slice_from_def py_slice_to_def)
next
  case (snoc ys y)
  then show ?thesis by (simp add: rotate_list_def py_slice_from_def py_slice_to_def)
qed

lemma rotate_list_rotate1: "rotate_list (rotate1 l) 1 = l"
  by (cases l) (simp_all add: rotate_list_one)

lemma length_rotate_list_one: "length (rotate_list l 1) = length l"
  by (cases l rule: rev_cases) (simp_all add: rotate_list_one)

lemma funpow_rotate_list:
  "k \<le> length l \<Longrightarrow> ((\<lambda>xs. rotate_list xs 1) ^^ k) l = rotate (length l - k) l"
proof (induction k)
  case 0
  then show ?case by simp
next
  case (Suc k)
  then have "length l - k = Suc (length l - Suc k)" by simp
  then have "rotate (length l - k) l = rotate1 (rotate (length l - Suc k) l)"
    by simp
  with Suc show ?case by (simp add: rotate_list_rotate1)
qed

lemma funpow_rotate_list_drop_take:
  assumes "k \<le> length l"
  shows "((\<lambda>xs. rotate_list xs 1) ^^ k) l = drop (length l - k) l @ take (length l - k) l"
proof (cases "k = 0")
  case True
  then show ?thesis by simp
next
  case False
  with assms have "(length l - k) mod length l = length l - k" by simp
  then show ?thesis
    using funpow_rotate_list [OF assms] by (simp add: rotate_drop_take)
qed

lemma hd_candidate:
  assumes "k < length l"
  shows "hd (((\<lambda>xs. rotate_list xs 1) ^^ k) l) = l ! ((length l - k) mod length l)"
proof -
  have "l \<noteq> []" using assms by auto
  then show ?thesis
    using funpow_rotate_list [of k l] assms by (simp add: hd_rotate_conv_nth)
qed

lemma candidates_distinct:
  assumes "distinct l"
  shows "distinct (map (\<lambda>k. ((\<lambda>xs. rotate_list xs 1) ^^ k) l) [0..<length l])"
proof -
  have "inj_on (\<lambda>k. ((\<lambda>xs. rotate_list xs 1) ^^ k) l) {0..<length l}"
  proof (rule inj_onI)
    fix j k assume j: "j \<in> {0..<length l}" and k: "k \<in> {0..<length l}"
      and eq: "((\<lambda>xs. rotate_list xs 1) ^^ j) l = ((\<lambda>xs. rotate_list xs 1) ^^ k) l"
    from j k have jl: "j < length l" and kl: "k < length l" by auto
    from eq have "l ! ((length l - j) mod length l) = l ! ((length l - k) mod length l)"
      using hd_candidate [OF jl] hd_candidate [OF kl] by simp
    moreover have "0 < length l" using jl by auto
    then have "(length l - j) mod length l < length l" "(length l - k) mod length l < length l"
      by simp_all
    ultimately have "(length l - j) mod length l = (length l - k) mod length l"
      using assms by (simp only: nth_eq_iff_index_eq)
    then show "j = k"
      using jl kl by (cases "j = 0"; cases "k = 0") auto
  qed
  then show ?thesis by (simp add: distinct_map)
qed


lemma configure_INTERNAL_EXTEND_returns:
  "\<exists>command. configure ds INTERNAL_EXTEND ea dir = Inr command"
proof -
  have "configure_loop ds INTERNAL_EXTEND ea dir (enumerate 0 ds) ''xrandr'' =
          Inr (''xrandr'' @ concat (map (\<lambda>i. '' --output '' @ name (ds ! i) @
       (if i = 0 then '' --primary --auto''
        else if i = 1 then '' --auto --'' @ dir @ ''-of '' @ name (ds ! 0)
        else if ea then '' --auto --'' @ dir @ ''-of '' @ name (ds ! (i - 1))
        else '' --off'')) [0..<0 + length ds]))"
    by (rule configure_loop_concat) (simp add: step_INTERNAL_EXTEND)
  then show ?thesis by (simp add: configure_def)
qed

lemma setup_prompt_rejections:
  "\<exists>commands'. setup_prompt l commands (replicate k ''n'' @ [''y'']) =
       Inr (commands', ((\<lambda>xs. rotate_list xs 1) ^^ k) l)
     \<and> length commands' = length commands + k"
proof (induction k arbitrary: l commands)
  case 0
  then show ?case by simp
next
  case (Suc k)
  obtain c where c: "configure (rotate_list l 1) INTERNAL_EXTEND True ''right'' = Inr c"
    using configure_INTERNAL_EXTEND_returns by blast
  obtain cs where "setup_prompt (rotate_list l 1) (commands @ [c]) (replicate k ''n'' @ [''y'']) =
       Inr (cs, ((\<lambda>xs. rotate_list xs 1) ^^ k) (rotate_list l 1))"
     and "length cs = length (commands @ [c]) + k"
    using Suc.IH [of "rotate_list l 1" "commands @ [c]"] by blast
  moreover have "((\<lambda>xs. rotate_list xs 1) ^^ k) (rotate_list l 1) =
      rotate_list (((\<lambda>xs. rotate_list xs 1) ^^ k) l) 1"
    using funpow_swap1 [of "\<lambda>xs. rotate_list xs 1" k l] by simp
  ultimately show ?case using c by simp
qed

lemma main_setup_rejections:
  "\<exists>commands. main_setup l (replicate k ''n'' @ [''y'']) =
       Inr (commands, ((\<lambda>xs. rotate_list xs 1) ^^ k) l)
     \<and> length commands = Suc k"
proof -
  obtain c where c: "configure l INTERNAL_EXTEND True ''right'' = Inr c"
    using configure_INTERNAL_EXTEND_returns by blast
  then show ?thesis
    using setup_prompt_rejections [of l "[c]" k] by (simp add: main_setup_def)
qed

text \<open>
  C9. For every list of \<open>N\<close> displays: one rejection, \<open>rotate(display_list, 1)\<close>, moves the
  last element to the front; \<open>N\<close> rejections restore the original list; the candidate after
  \<open>k \<le> N\<close> rejections is the cyclic rotation by \<open>k\<close> positions; when the displays are
  pairwise different the first \<open>N\<close> candidates are pairwise different, so every rotation is
  proposed exactly once before the orders repeat; and the wizard, answered \<open>n\<close> \<open>k\<close> times
  and then \<open>y\<close>, has issued \<open>k + 1\<close> trial configurations and accepts the order rotated
  \<open>k\<close> times.
\<close>

theorem setup_rotation:
  "rotate_list l 1 = (if l = [] then [] else last l # butlast l)
   \<and> ((\<lambda>xs. rotate_list xs 1) ^^ length l) l = l
   \<and> (\<forall>k \<le> length l. ((\<lambda>xs. rotate_list xs 1) ^^ k) l = drop (length l - k) l @ take (length l - k) l)
   \<and> (distinct l \<longrightarrow> distinct (map (\<lambda>k. ((\<lambda>xs. rotate_list xs 1) ^^ k) l) [0..<length l]))
   \<and> (\<exists>commands. main_setup l (replicate k ''n'' @ [''y'']) =
          Inr (commands, ((\<lambda>xs. rotate_list xs 1) ^^ k) l) \<and> length commands = Suc k)"
  using rotate_list_one [of l] funpow_rotate_list_drop_take [of _ l] funpow_rotate_list [of "length l" l]
    candidates_distinct [of l] main_setup_rejections [of l k]
  by simp

theorem setup_rotation_witness:
  "distinct [eDP1, HDMI1, DP2]
   \<and> rotate_list [eDP1, HDMI1, DP2] 1 = [DP2, eDP1, HDMI1]
   \<and> rotate_list [DP2, eDP1, HDMI1] 1 = [HDMI1, DP2, eDP1]
   \<and> rotate_list [HDMI1, DP2, eDP1] 1 = [eDP1, HDMI1, DP2]
   \<and> distinct [[eDP1, HDMI1, DP2], [DP2, eDP1, HDMI1], [HDMI1, DP2, eDP1]]
   \<and> (\<exists>commands. main_setup [eDP1, HDMI1, DP2] [''n'', ''n'', ''y''] =
          Inr (commands, [HDMI1, DP2, eDP1]) \<and> length commands = 3)"
proof -
  have d: "distinct [eDP1, HDMI1, DP2]"
    by (simp add: eDP1_def HDMI1_def DP2_def Display_init_def)
  have r1: "rotate_list [eDP1, HDMI1, DP2] 1 = [DP2, eDP1, HDMI1]"
    using setup_rotation [of "[eDP1, HDMI1, DP2]" 2] by simp
  have r2: "rotate_list [DP2, eDP1, HDMI1] 1 = [HDMI1, DP2, eDP1]"
    using setup_rotation [of "[DP2, eDP1, HDMI1]" 2] by simp
  have r3: "rotate_list [HDMI1, DP2, eDP1] 1 = [eDP1, HDMI1, DP2]"
    using setup_rotation [of "[HDMI1, DP2, eDP1]" 2] by simp
  have up: "[0..<length [eDP1, HDMI1, DP2]] = [0, 1, 2]" by (simp add: upt_rec)
  have pw: "(\<lambda>xs. rotate_list xs 1) ^^ 2 = (\<lambda>xs. rotate_list (rotate_list xs 1) 1)"
    by (simp add: numeral_2_eq_2 fun_eq_iff)
  have "distinct (map (\<lambda>k. ((\<lambda>xs. rotate_list xs 1) ^^ k) [eDP1, HDMI1, DP2]) [0, 1, 2])"
    using setup_rotation [of "[eDP1, HDMI1, DP2]" 2] d unfolding up by blast
  then have dd: "distinct [[eDP1, HDMI1, DP2], [DP2, eDP1, HDMI1], [HDMI1, DP2, eDP1]]"
    by (simp add: r1 r2 pw del: distinct.simps)
  have "\<exists>commands. main_setup [eDP1, HDMI1, DP2] (replicate 2 ''n'' @ [''y'']) =
          Inr (commands, ((\<lambda>xs. rotate_list xs 1) ^^ 2) [eDP1, HDMI1, DP2]) \<and> length commands = Suc 2"
    using setup_rotation [of "[eDP1, HDMI1, DP2]" 2] by blast
  then have "\<exists>commands. main_setup [eDP1, HDMI1, DP2] [''n'', ''n'', ''y''] =
          Inr (commands, [HDMI1, DP2, eDP1]) \<and> length commands = 3"
    by (simp add: pw r1 r2 numeral_2_eq_2 numeral_3_eq_3)
  with d r1 r2 r3 dd show ?thesis by blast
qed

section \<open>Display Matcher: properties\<close>

lemma first_match_find:
  "(case map f (filter P xs) of [] \<Rightarrow> a | n # _ \<Rightarrow> n) =
   (case find P xs of None \<Rightarrow> a | Some d \<Rightarrow> f d)"
  by (induction xs) simp_all

text \<open>
  C3. With no stored configuration the live list is used. When every EDID of the live list
  occurs in the stored configuration, the stored displays are used in their stored order, each
  with its name replaced by the name of the (first) live display with the same EDID; a stored
  display whose EDID is not connected keeps its stored name. Otherwise the live list is used
  unchanged.
\<close>

theorem main_displays_choice:
  "main_displays None live = live
   \<and> (set (get_edids live) \<subseteq> set (get_edids stored) \<longrightarrow>
        main_displays (Some stored) live =
          map (\<lambda>s. s\<lparr>name := (case find (\<lambda>d. edid d = edid s) live of
                                 None \<Rightarrow> name s | Some d \<Rightarrow> name d)\<rparr>) stored)
   \<and> (\<not> set (get_edids live) \<subseteq> set (get_edids stored) \<longrightarrow>
        main_displays (Some stored) live = live)"
  by (simp add: main_displays_def first_match_find)

theorem main_displays_choice_witness:
  "set (get_edids [HDMI1\<lparr>name := ''HDMI-2''\<rparr>, eDP1]) \<subseteq> set (get_edids [eDP1, HDMI1, DP2])
   \<and> main_displays (Some [eDP1, HDMI1, DP2]) [HDMI1\<lparr>name := ''HDMI-2''\<rparr>, eDP1] =
       [eDP1, HDMI1\<lparr>name := ''HDMI-2''\<rparr>, DP2]
   \<and> \<not> set (get_edids [eDP1, DP2]) \<subseteq> set (get_edids [eDP1, HDMI1])
   \<and> main_displays (Some [eDP1, HDMI1]) [eDP1, DP2] = [eDP1, DP2]"
  using main_displays_choice [of "[HDMI1\<lparr>name := ''HDMI-2''\<rparr>, eDP1]" "[eDP1, HDMI1, DP2]"]
    main_displays_choice [of "[eDP1, DP2]" "[eDP1, HDMI1]"]
  by (simp add: get_edids_def eDP1_def HDMI1_def DP2_def Display_init_def)

section \<open>Configuration Store: properties\<close>

text \<open>
  C8. When there is no file at the configuration path, \<open>JsonUtils.from_json\<close> returns
  \<open>None\<close>, raises nothing and leaves the file system as it was.
\<close>

theorem from_json_missing_file:
  "fs (file_name home) = None \<Longrightarrow> from_json home fs = (Inr None, fs)"
  by (simp add: from_json_def)

theorem from_json_missing_file_witness:
  "from_json ''/home/user'' Map.empty = (Inr None, Map.empty)"
  using from_json_missing_file [of Map.empty "''/home/user''"] by simp

lemma Offset_roundtrip: "Offset_from_json (Offset_dict off) = Inr off"
  by (simp add: Offset_from_json_def Offset_dict_def json_get_def json_str_def)

lemma Offset_null: "Offset_from_json JNull = Inl TypeError"
  by (simp add: Offset_from_json_def)

lemma Display_roundtrip:
  "Display_from_json (Display_dict d) =
     (if x_offset d = None \<or> y_offset d = None then Inl TypeError else Inr d)"
  by (cases d)
    (auto simp add: Display_from_json_def Display_dict_def json_get_def json_str_def
      json_opt_str_def Offset_roundtrip Offset_null Display_init_def split: option.splits)

lemma map_err_all:
  "\<forall>x \<in> set xs. f (g x) = Inr x \<Longrightarrow> map_err f (map g xs) = Inr xs"
  by (induction xs) simp_all

lemma map_err_fail:
  "\<forall>x \<in> set xs. f x = Inl e \<or> (\<exists>y. f x = Inr y) \<Longrightarrow> \<exists>x \<in> set xs. f x = Inl e \<Longrightarrow>
   map_err f xs = Inl e"
proof (induction xs)
  case Nil
  then show ?case by simp
next
  case (Cons x xs)
  show ?case
  proof (cases "f x")
    case (Inl e')
    with Cons.prems show ?thesis by auto
  next
    case (Inr y)
    with Cons.prems have "\<exists>x \<in> set xs. f x = Inl e" by auto
    moreover from Cons.prems have "\<forall>x \<in> set xs. f x = Inl e \<or> (\<exists>y. f x = Inr y)" by simp
    ultimately have "map_err f xs = Inl e" by (rule Cons.IH [rotated])
    with Inr show ?thesis by simp
  qed
qed

text \<open>
  C10. Writing a display list in which every display has a resolution and both offsets and
  then loading it returns the same list and changes nothing further; when some display lacks
  an offset (written as \<open>null\<close>), loading the written file raises \<open>TypeError\<close> in
  \<open>Offset.from_json\<close> instead of restoring the inactive display.
\<close>

theorem store_roundtrip:
  "((\<forall>d \<in> set displays. resolution d \<noteq> None \<and> x_offset d \<noteq> None \<and> y_offset d \<noteq> None) \<longrightarrow>
      from_json home (to_json home displays fs) = (Inr (Some displays), to_json home displays fs))
   \<and> ((\<exists>d \<in> set displays. x_offset d = None \<or> y_offset d = None) \<longrightarrow>
      fst (from_json home (to_json home displays fs)) = Inl TypeError)"
proof (intro conjI impI)
  assume "\<forall>d \<in> set displays. resolution d \<noteq> None \<and> x_offset d \<noteq> None \<and> y_offset d \<noteq> None"
  then have "\<forall>d \<in> set displays. Display_from_json (Display_dict d) = Inr d"
    by (simp add: Display_roundtrip)
  then have "map_err Display_from_json (map Display_dict displays) = Inr displays"
    by (rule map_err_all)
  then show "from_json home (to_json home displays fs) = (Inr (Some displays), to_json home displays fs)"
    by (simp add: from_json_def to_json_def DisplayList_from_json_def DisplayList_dict_def json_get_def)
next
  assume "\<exists>d \<in> set displays. x_offset d = None \<or> y_offset d = None"
  then have "\<exists>j \<in> set (map Display_dict displays). Display_from_json j = Inl TypeError"
    by (auto simp add: Display_roundtrip)
  moreover have "\<forall>j \<in> set (map Display_dict displays).
      Display_from_json j = Inl TypeError \<or> (\<exists>y. Display_from_json j = Inr y)"
    by (auto simp add: Display_roundtrip)
  ultimately have "map_err Display_from_json (map Display_dict displays) = Inl TypeError"
    by (rule map_err_fail [rotated])
  then show "fst (from_json home (to_json home displays fs)) = Inl TypeError"
    by (simp add: from_json_def to_json_def DisplayList_from_json_def DisplayList_dict_def json_get_def)
qed

theorem store_roundtrip_witness:
  "from_json ''/home/user'' (to_json ''/home/user'' [eDP1, HDMI1] Map.empty) =
     (Inr (Some [eDP1, HDMI1]), to_json ''/home/user'' [eDP1, HDMI1] Map.empty)
   \<and> fst (from_json ''/home/user'' (to_json ''/home/user'' [eDP1, DP2] Map.empty)) = Inl TypeError"
  using store_roundtrip [of "[eDP1, HDMI1]" "''/home/user''" Map.empty]
    store_roundtrip [of "[eDP1, DP2]" "''/home/user''" Map.empty]
  by (simp add: eDP1_def HDMI1_def DP2_def Display_init_def)

section \<open>Status Parser: the grammar accepts its lines\<close>

lemma lex_regex_ok:
  assumes "v \<noteq> []" "list_all cls v" "\<not> is_ws (hd v)" "r = [] \<or> \<not> cls (hd r)" "gap w"
  shows "lex_regex cls (w @ v @ r) = Some (v, r)"
proof -
  have "dropWhile is_ws (w @ v @ r) = v @ r"
    using assms(1,3,5) by (cases v) (simp_all add: list_all_iff gap_def)
  moreover have "takeWhile cls (v @ r) = v"
    using assms(2,4) by (cases r) (simp_all add: list_all_iff)
  moreover have "dropWhile cls (v @ r) = r"
    using assms(2,4) by (cases r) (simp_all add: list_all_iff)
  ultimately show ?thesis using assms(1) by (simp add: lex_regex_def)
qed

lemma lex_regex_none:
  assumes "\<not> is_ws c" "\<not> cls c" "gap w"
  shows "lex_regex cls (w @ c # r) = None"
proof -
  have "dropWhile is_ws (w @ c # r) = c # r"
    using assms(1,3) by (simp add: list_all_iff gap_def)
  then show ?thesis using assms(2) by (simp add: lex_regex_def)
qed

lemma lex_regex_gap:
  assumes "gap w"
  shows "lex_regex cls w = None"
proof -
  have "dropWhile is_ws w = []"
    using assms by (simp add: gap_def list_all_iff)
  then show ?thesis by (simp add: lex_regex_def del: dropWhile_eq_Nil_conv)
qed

lemma lex_literal_ok:
  assumes "lit \<noteq> []" "\<not> is_ws (hd lit)" "gap w"
  shows "lex_literal lit (w @ lit @ r) = Some r"
proof -
  have "dropWhile is_ws (w @ lit @ r) = lit @ r"
    using assms by (cases lit) (simp_all add: list_all_iff gap_def)
  then show ?thesis by (simp add: lex_literal_def)
qed

lemma lex_literal_none:
  assumes "\<not> is_ws c" "lit \<noteq> []" "hd lit \<noteq> c" "gap w"
  shows "lex_literal lit (w @ c # r) = None"
proof -
  have "dropWhile is_ws (w @ c # r) = c # r"
    using assms(1,4) by (simp add: list_all_iff gap_def)
  then show ?thesis using assms(2,3) by (cases lit) (simp_all add: lex_literal_def)
qed

lemma digit_not_ws: "is_digit c \<Longrightarrow> \<not> is_ws c"
  by (auto simp add: is_digit_def is_ws_def)

lemma text_not_ws: "is_text c \<Longrightarrow> \<not> is_ws c"
  by (auto simp add: is_text_def is_ws_def)

lemma number_hd: "number v \<Longrightarrow> is_digit (hd v)"
  by (cases v) (simp_all add: number_def)

lemma gap_Nil: "gap []"
  by (simp add: gap_def)

text \<open>White space in front of a text that does not start with a digit.\<close>

lemma gap_not_digit:
  assumes "gap g" "r = [] \<or> \<not> is_digit (hd r)"
  shows "g @ r = [] \<or> \<not> is_digit (hd (g @ r))"
proof (cases g)
  case Nil
  with assms(2) show ?thesis by simp
next
  case (Cons c cs)
  with assms(1) have "is_ws c" by (simp add: gap_def)
  then have "\<not> is_digit c" using digit_not_ws by blast
  with Cons show ?thesis by simp
qed

lemma lex_number_ok:
  assumes "number v" "r = [] \<or> \<not> is_digit (hd r)" "gap w"
  shows "lex_regex is_digit (w @ v @ r) = Some (v, r)"
  using assms lex_regex_ok [of v is_digit r w]
  by (simp add: number_def number_hd digit_not_ws)

lemma p_pixels_ok:
  assumes "number v" "r = [] \<or> \<not> is_digit (hd r)" "gap w"
  shows "p_pixels (w @ v @ r) = Some (Tree ''pixels'' [Token ''NUMBER'' v], r)"
  using lex_number_ok [OF assms] by (simp add: p_pixels_def)

lemma p_offset_value_ok:
  assumes "number v" "r = [] \<or> \<not> is_digit (hd r)" "gap w"
  shows "p_offset_value (w @ v @ r) = Some (Tree ''offset_value'' [Token ''NUMBER'' v], r)"
  using lex_number_ok [OF assms] by (simp add: p_offset_value_def)

lemma lex_OFFSET_DIRECTION_ok:
  assumes "sign d" "gap w"
  shows "lex_OFFSET_DIRECTION (w @ d @ r) = Some (d, r)"
proof -
  from assms(1) consider "d = ''+''" | "d = ''-''" by (auto simp add: sign_def)
  then show ?thesis
  proof cases
    case 1
    have "lex_literal ''+'' (w @ ''+'' @ r) = Some r"
      using assms(2) by (intro lex_literal_ok) (simp_all add: is_ws_def)
    with 1 show ?thesis by (simp add: lex_OFFSET_DIRECTION_def)
  next
    case 2
    have "lex_literal ''+'' (w @ CHR ''-'' # r) = None"
      using assms(2) by (intro lex_literal_none) (simp_all add: is_ws_def)
    moreover have "lex_literal ''-'' (w @ ''-'' @ r) = Some r"
      using assms(2) by (intro lex_literal_ok) (simp_all add: is_ws_def)
    ultimately show ?thesis using 2 by (simp add: lex_OFFSET_DIRECTION_def)
  qed
qed

lemma p_offset_ok:
  assumes "sign d" "gap g1" "number v" "gap g2" "r = [] \<or> \<not> is_digit (hd r)"
  shows "p_offset (g1 @ d @ g2 @ v @ r) =
    Some (Tree ''offset'' [Token ''OFFSET_DIRECTION'' d, Tree ''offset_value'' [Token ''NUMBER'' v]], r)"
  using lex_OFFSET_DIRECTION_ok [OF assms(1,2), of "g2 @ v @ r"] p_offset_value_ok [OF assms(3,5,4)]
  by (simp add: p_offset_def)

lemma sign_not_digit:
  assumes "sign d" "gap g"
  shows "g @ d @ r = [] \<or> \<not> is_digit (hd (g @ d @ r))"
proof -
  have "\<not> is_digit (hd (d @ r))"
    using assms(1) by (auto simp add: sign_def is_digit_def)
  then show ?thesis using gap_not_digit [OF assms(2), of "d @ r"] by blast
qed

lemma p_screen_offset_ok:
  assumes "sign dx" "gap g1" "number vx" "gap g2" "sign dy" "gap g3" "number vy" "gap g4"
    "r = [] \<or> \<not> is_digit (hd r)"
  shows "p_screen_offset (g1 @ dx @ g2 @ vx @ g3 @ dy @ g4 @ vy @ r) =
    Some (Tree ''screen_offset''
      [Tree ''offset'' [Token ''OFFSET_DIRECTION'' dx, Tree ''offset_value'' [Token ''NUMBER'' vx]],
       Tree ''offset'' [Token ''OFFSET_DIRECTION'' dy, Tree ''offset_value'' [Token ''NUMBER'' vy]]], r)"
proof -
  have "p_offset (g1 @ dx @ g2 @ vx @ (g3 @ dy @ g4 @ vy @ r)) =
      Some (Tree ''offset'' [Token ''OFFSET_DIRECTION'' dx, Tree ''offset_value'' [Token ''NUMBER'' vx]],
        g3 @ dy @ g4 @ vy @ r)"
    using assms(1,2,3,4) sign_not_digit [OF assms(5,6)] by (rule p_offset_ok)
  moreover have "p_offset (g3 @ dy @ g4 @ vy @ r) =
      Some (Tree ''offset'' [Token ''OFFSET_DIRECTION'' dy, Tree ''offset_value'' [Token ''NUMBER'' vy]], r)"
    using assms(5,6,7,8,9) by (rule p_offset_ok)
  ultimately show ?thesis by (simp add: p_screen_offset_def)
qed

lemma x_not_digit:
  assumes "gap g"
  shows "g @ ''x'' @ r = [] \<or> \<not> is_digit (hd (g @ ''x'' @ r))"
  using gap_not_digit [OF assms, of "''x'' @ r"] by (simp add: is_digit_def)

lemma p_resolution_offset_ok:
  assumes "number w" "gap g1" "gap gx" "number h" "gap g2"
    "sign dx" "gap g3" "number vx" "gap g4" "sign dy" "gap g5" "number vy" "gap g6"
    "r = [] \<or> \<not> is_digit (hd r)"
  shows "p_resolution_offset
      (g1 @ w @ gx @ ''x'' @ g2 @ h @ g3 @ dx @ g4 @ vx @ g5 @ dy @ g6 @ vy @ r) =
    Some (Tree ''resolution_offset''
      [Tree ''pixels'' [Token ''NUMBER'' w], Tree ''pixels'' [Token ''NUMBER'' h],
       Tree ''screen_offset''
        [Tree ''offset'' [Token ''OFFSET_DIRECTION'' dx, Tree ''offset_value'' [Token ''NUMBER'' vx]],
         Tree ''offset'' [Token ''OFFSET_DIRECTION'' dy, Tree ''offset_value'' [Token ''NUMBER'' vy]]]], r)"
proof -
  let ?r3 = "g3 @ dx @ g4 @ vx @ g5 @ dy @ g6 @ vy @ r"
  let ?r2 = "g2 @ h @ ?r3"
  have "p_pixels (g1 @ w @ (gx @ ''x'' @ ?r2)) = Some (Tree ''pixels'' [Token ''NUMBER'' w], gx @ ''x'' @ ?r2)"
    using assms(1) x_not_digit [OF assms(3)] assms(2) by (rule p_pixels_ok)
  moreover have "lex_literal ''x'' (gx @ ''x'' @ ?r2) = Some ?r2"
    using assms(3) by (intro lex_literal_ok) (simp_all add: is_ws_def)
  moreover have "p_pixels (g2 @ h @ ?r3) = Some (Tree ''pixels'' [Token ''NUMBER'' h], ?r3)"
    using assms(4) sign_not_digit [OF assms(6,7)] assms(5) by (rule p_pixels_ok)
  ultimately show ?thesis
    using p_screen_offset_ok [OF assms(6,7,8,9,10,11,12,13,14)]
    by (simp add: p_resolution_offset_def)
qed

lemma lex_word_ok:
  assumes "word \<in> set [''normal'', ''left'', ''inverted'', ''right'', ''x'', ''axis'', ''y'']"
    "gap w"
  shows "lex_word (w @ word @ r) = Some r"
proof -
  have "\<not> is_ws (hd word)" "word \<noteq> []"
    using assms(1) by (auto simp add: is_ws_def)
  then have dw: "dropWhile is_ws (w @ word @ r) = word @ r"
    using assms(2) by (cases word) (simp_all add: list_all_iff gap_def)
  have "word = ''normal'' \<or> word = ''left'' \<or> word = ''inverted'' \<or> word = ''right''
      \<or> word = ''x'' \<or> word = ''axis'' \<or> word = ''y''"
    using assms(1) by simp
  then show ?thesis
    using dw by (elim disjE; simp add: lex_word_def lex_literal_def)
qed

lemma lex_word_close:
  assumes "gap w"
  shows "lex_word (w @ CHR '')'' # r) = None"
proof -
  have "dropWhile is_ws (w @ CHR '')'' # r) = CHR '')'' # r"
    using assms by (simp add: list_all_iff is_ws_def gap_def)
  then show ?thesis
    by (simp add: lex_word_def lex_literal_def)
qed

lemma more_words_ok:
  assumes "list_all flag flags" "gap g"
  shows "more_words (concat (map spaced_text flags) @ g @ CHR '')'' # r) = g @ CHR '')'' # r"
  using assms(1)
proof (induction flags)
  case Nil
  have "lex_word (g @ CHR '')'' # r) = None" using assms(2) by (rule lex_word_close)
  then show ?case by (simp add: more_words.simps)
next
  case (Cons f flags)
  let ?tail = "concat (map spaced_text flags) @ g @ CHR '')'' # r"
  from Cons.prems have ff: "flag f" and rest: "list_all flag flags"
    by simp_all
  from ff have f: "snd f \<in> set [''normal'', ''left'', ''inverted'', ''right'', ''x'', ''axis'', ''y'']"
    and g: "gap (fst f)"
    unfolding flag_def by blast+
  have "lex_word (fst f @ snd f @ ?tail) = Some ?tail"
    using f g by (rule lex_word_ok)
  then have "more_words (concat (map spaced_text (f # flags)) @ g @ CHR '')'' # r) = more_words ?tail"
    by (subst more_words.simps) (simp add: spaced_text_def)
  with Cons.IH [OF rest] show ?case by simp
qed

lemma p_orientation_ok:
  assumes "flags \<noteq> []" "list_all flag flags" "gap gl" "gap gr"
  shows "p_orientation (gl @ ''('' @ concat (map spaced_text flags) @ gr @ '')'' @ r) =
    Some (Tree ''orientation'' [], r)"
proof -
  obtain f fs where flags: "flags = f # fs" using assms(1) by (cases flags) simp_all
  let ?tail = "concat (map spaced_text fs) @ gr @ CHR '')'' # r"
  from assms(2) flags have ff: "flag f" and rest: "list_all flag fs"
    by simp_all
  from ff have f: "snd f \<in> set [''normal'', ''left'', ''inverted'', ''right'', ''x'', ''axis'', ''y'']"
    and g: "gap (fst f)"
    unfolding flag_def by blast+
  have "lex_literal ''('' (gl @ ''('' @ (fst f @ snd f @ ?tail)) = Some (fst f @ snd f @ ?tail)"
    using assms(3) by (intro lex_literal_ok) (simp_all add: is_ws_def)
  moreover have "lex_word (fst f @ snd f @ ?tail) = Some ?tail"
    using f g by (rule lex_word_ok)
  moreover have "more_words ?tail = gr @ CHR '')'' # r"
    using rest assms(4) by (rule more_words_ok)
  moreover have "lex_literal '')'' (gr @ '')'' @ r) = Some r"
    using assms(4) by (intro lex_literal_ok) (simp_all add: is_ws_def)
  ultimately show ?thesis
    by (simp add: p_orientation_def flags spaced_text_def)
qed

lemma mm_not_digit:
  assumes "gap g"
  shows "g @ ''mm'' @ r = [] \<or> \<not> is_digit (hd (g @ ''mm'' @ r))"
  using gap_not_digit [OF assms, of "''mm'' @ r"] by (simp add: is_digit_def)

lemma p_length_ok:
  assumes "number v" "gap g1" "gap g2"
  shows "p_length (g1 @ v @ g2 @ ''mm'' @ r) = Some (Tree ''length'' [Token ''NUMBER'' v], r)"
proof -
  have "lex_regex is_digit (g1 @ v @ (g2 @ ''mm'' @ r)) = Some (v, g2 @ ''mm'' @ r)"
    using assms(1) mm_not_digit [OF assms(3)] assms(2) by (rule lex_number_ok)
  moreover have "lex_literal ''mm'' (g2 @ ''mm'' @ r) = Some r"
    using assms(3) by (intro lex_literal_ok) (simp_all add: is_ws_def)
  ultimately show ?thesis by (simp add: p_length_def)
qed

lemma p_screen_size_ok:
  assumes "number a" "gap g1" "gap g2" "gap gx" "number b" "gap g3" "gap g4"
  shows "p_screen_size (g1 @ a @ g2 @ ''mm'' @ gx @ ''x'' @ g3 @ b @ g4 @ ''mm'' @ r) =
    Some (Tree ''screen_size'' [Tree ''length'' [Token ''NUMBER'' a], Tree ''length'' [Token ''NUMBER'' b]], r)"
proof -
  let ?r2 = "g3 @ b @ g4 @ ''mm'' @ r"
  have "p_length (g1 @ a @ g2 @ ''mm'' @ (gx @ ''x'' @ ?r2)) =
      Some (Tree ''length'' [Token ''NUMBER'' a], gx @ ''x'' @ ?r2)"
    using assms(1,2,3) by (rule p_length_ok)
  moreover have "lex_literal ''x'' (gx @ ''x'' @ ?r2) = Some ?r2"
    using assms(4) by (intro lex_literal_ok) (simp_all add: is_ws_def)
  moreover have "p_length ?r2 = Some (Tree ''length'' [Token ''NUMBER'' b], r)"
    using assms(5,6,7) by (rule p_length_ok)
  ultimately show ?thesis by (simp add: p_screen_size_def)
qed

lemma lark_parse_ok:
  assumes wf: "line_matches L"
  shows "lark_parse (line_text L) = Inr (line_tree L)"
proof -
  define SZ where "SZ = (case ln_screen_size L of None \<Rightarrow> [] | Some q \<Rightarrow> screen_size_text q) @ ln_end L"
  define ORI where "ORI = ln_open L @ ''('' @ concat (map spaced_text (ln_flags L)) @ ln_close L @ '')'' @ SZ"
  define RO where "RO = (case ln_resolution_offset L of None \<Rightarrow> [] | Some q \<Rightarrow> resolution_offset_text q) @ ORI"
  define P where "P = (case ln_primary L of None \<Rightarrow> [] | Some g \<Rightarrow> g @ ''primary'') @ RO"
  define n where "n = snd (ln_name L)"
  have line: "line_text L = fst (ln_name L) @ n @ ln_connected L @ ''connected'' @ P"
    by (simp add: line_text_def P_def RO_def ORI_def SZ_def n_def spaced_text_def)
  have g0: "gap (fst (ln_name L))" and n: "n \<noteq> []" "list_all is_text n"
    and gc: "gap (ln_connected L)" "ln_connected L \<noteq> []"
    and gp: "case ln_primary L of None \<Rightarrow> True | Some g \<Rightarrow> gap g"
    and ro: "case ln_resolution_offset L of None \<Rightarrow> True | Some q \<Rightarrow> resolution_offset_ok q"
    and gl: "gap (ln_open L)" and flags: "ln_flags L \<noteq> []" "list_all flag (ln_flags L)"
    and gr: "gap (ln_close L)"
    and sz: "case ln_screen_size L of None \<Rightarrow> True | Some q \<Rightarrow> screen_size_ok q"
    and ge: "gap (ln_end L)"
    using wf unfolding line_matches_def n_def by blast+
  have "\<not> is_ws (hd n)"
    using n by (cases n) (simp_all add: text_not_ws)
  moreover have "\<not> is_text (hd (ln_connected L @ ''connected'' @ P))"
  proof -
    obtain c cs where c: "ln_connected L = c # cs" using gc(2) by (cases "ln_connected L") simp_all
    with gc(1) have "is_ws c" by (simp add: gap_def)
    then have "\<not> is_text c" using text_not_ws by blast
    with c show ?thesis by simp
  qed
  ultimately have "lex_regex is_text (fst (ln_name L) @ n @ (ln_connected L @ ''connected'' @ P)) =
      Some (n, ln_connected L @ ''connected'' @ P)"
    using n g0 by (intro lex_regex_ok) simp_all
  then have s1: "p_output (fst (ln_name L) @ n @ ln_connected L @ ''connected'' @ P) =
      Some (Tree ''output'' [Token ''TEXT'' n], ln_connected L @ ''connected'' @ P)"
    by (simp add: p_output_def)
  have s2: "lex_literal ''connected'' (ln_connected L @ ''connected'' @ P) = Some P"
    using gc(1) by (intro lex_literal_ok) (simp_all add: is_ws_def)
  have ori_hd: "ORI = ln_open L @ CHR ''('' # (concat (map spaced_text (ln_flags L)) @ ln_close L @ '')'' @ SZ)"
    by (simp add: ORI_def)
  have ro_hd: "\<exists>g c r. RO = g @ c # r \<and> gap g \<and> \<not> is_ws c \<and> c \<noteq> CHR ''p''"
  proof (cases "ln_resolution_offset L")
    case None
    then have "RO = ln_open L @ CHR ''('' # (concat (map spaced_text (ln_flags L)) @ ln_close L @ '')'' @ SZ)"
      by (simp add: RO_def ORI_def)
    moreover have "\<not> is_ws (CHR ''('')" "CHR ''('' \<noteq> CHR ''p''" by (simp_all add: is_ws_def)
    ultimately show ?thesis using gl by blast
  next
    case (Some q)
    obtain w gx h dx vx dy vy where q: "q = (w, gx, h, dx, vx, dy, vy)" by (cases q)
    with Some ro have "number (snd w)" "gap (fst w)" by (simp_all add: resolution_offset_ok_def)
    then obtain c cs where w: "snd w = c # cs" and "is_digit c" and gw: "gap (fst w)"
      by (cases "snd w") (simp_all add: number_def)
    then have "\<not> is_ws c" "c \<noteq> CHR ''p''"
      by (auto simp add: is_digit_def is_ws_def)
    moreover have "RO = fst w @ c # (cs @ gx @ ''x'' @ spaced_text h @ spaced_text dx @
        spaced_text vx @ spaced_text dy @ spaced_text vy @ ORI)"
      using Some q w by (simp add: RO_def resolution_offset_text_def spaced_text_def)
    ultimately show ?thesis using gw by blast
  qed
  have s3: "(case lex_literal ''primary'' P of None \<Rightarrow> P | Some r \<Rightarrow> r) = RO"
  proof (cases "ln_primary L")
    case (Some g)
    with gp have "gap g" by simp
    then have "lex_literal ''primary'' (g @ ''primary'' @ RO) = Some RO"
      by (intro lex_literal_ok) (simp_all add: is_ws_def)
    with Some show ?thesis by (simp add: P_def)
  next
    case None
    from ro_hd obtain g c r where "RO = g @ c # r" "gap g" "\<not> is_ws c" "c \<noteq> CHR ''p''"
      by blast
    then have "lex_literal ''primary'' RO = None"
      using lex_literal_none [of c "''primary''" g r] by simp
    with None show ?thesis by (simp add: P_def)
  qed
  have ori_nd: "ORI = [] \<or> \<not> is_digit (hd ORI)"
    unfolding ori_hd using gap_not_digit [OF gl, of "CHR ''('' # _"] by (simp add: is_digit_def)
  have s4: "p_optional p_resolution_offset RO =
      Some ((case ln_resolution_offset L of None \<Rightarrow> [] | Some q \<Rightarrow> [ro_tree q]), ORI)"
  proof (cases "ln_resolution_offset L")
    case None
    have "lex_regex is_digit ORI = None"
      unfolding ori_hd using _ _ gl by (rule lex_regex_none) (simp_all add: is_ws_def is_digit_def)
    with None show ?thesis by (simp add: p_optional_def RO_def)
  next
    case (Some q)
    obtain w gx h dx vx dy vy where q: "q = (w, gx, h, dx, vx, dy, vy)" by (cases q)
    with Some ro have nums: "number (snd w)" "gap (fst w)" "gap gx" "number (snd h)" "gap (fst h)"
        "sign (snd dx)" "gap (fst dx)" "number (snd vx)" "gap (fst vx)"
        "sign (snd dy)" "gap (fst dy)" "number (snd vy)" "gap (fst vy)"
      by (simp_all add: resolution_offset_ok_def)
    have RO: "RO = fst w @ snd w @ gx @ ''x'' @ fst h @ snd h @ fst dx @ snd dx @ fst vx @ snd vx @
        fst dy @ snd dy @ fst vy @ snd vy @ ORI"
      using Some q by (simp add: RO_def resolution_offset_text_def spaced_text_def)
    have ok: "p_resolution_offset RO = Some (ro_tree q, ORI)"
      unfolding RO q ro_tree_def prod.case
      using nums ori_nd by (rule p_resolution_offset_ok)
    have "lex_regex is_digit (fst w @ snd w @ (gx @ ''x'' @ fst h @ snd h @ fst dx @ snd dx @
        fst vx @ snd vx @ fst dy @ snd dy @ fst vy @ snd vy @ ORI)) =
        Some (snd w, gx @ ''x'' @ fst h @ snd h @ fst dx @ snd dx @
        fst vx @ snd vx @ fst dy @ snd dy @ fst vy @ snd vy @ ORI)"
      using nums(1) x_not_digit [OF nums(3)] nums(2) by (rule lex_number_ok)
    then have "lex_regex is_digit RO \<noteq> None" by (simp add: RO)
    with ok Some show ?thesis by (simp add: p_optional_def)
  qed
  have s5: "p_orientation ORI = Some (Tree ''orientation'' [], SZ)"
    unfolding ORI_def using flags gl gr by (rule p_orientation_ok)
  have s6: "p_optional p_screen_size SZ =
      Some ((case ln_screen_size L of None \<Rightarrow> [] | Some q \<Rightarrow> [sz_tree q]), ln_end L)"
  proof (cases "ln_screen_size L")
    case None
    then show ?thesis by (simp add: p_optional_def SZ_def lex_regex_gap [OF ge])
  next
    case (Some q)
    obtain a gm gx b gm' where q: "q = (a, gm, gx, b, gm')" by (cases q)
    with Some sz have nums: "number (snd a)" "gap (fst a)" "gap gm" "gap gx" "number (snd b)"
        "gap (fst b)" "gap gm'"
      by (simp_all add: screen_size_ok_def)
    have SZ: "SZ = fst a @ snd a @ gm @ ''mm'' @ gx @ ''x'' @ fst b @ snd b @ gm' @ ''mm'' @ ln_end L"
      using Some q by (simp add: SZ_def screen_size_text_def spaced_text_def)
    have ok: "p_screen_size SZ = Some (sz_tree q, ln_end L)"
      unfolding SZ q sz_tree_def prod.case
      using nums by (rule p_screen_size_ok)
    have "lex_regex is_digit (fst a @ snd a @ (gm @ ''mm'' @ gx @ ''x'' @ fst b @ snd b @ gm' @
        ''mm'' @ ln_end L)) =
        Some (snd a, gm @ ''mm'' @ gx @ ''x'' @ fst b @ snd b @ gm' @ ''mm'' @ ln_end L)"
      using nums(1) mm_not_digit [OF nums(3)] nums(2) by (rule lex_number_ok)
    then have "lex_regex is_digit SZ \<noteq> None" by (simp add: SZ)
    with ok Some show ?thesis by (simp add: p_optional_def)
  qed
  have s7: "dropWhile is_ws (ln_end L) = []"
    using ge by (simp add: gap_def list_all_iff)
  show ?thesis
    unfolding line lark_parse_def p_start_def line_tree_def n_def [symmetric]
    by (simp only: s1 s2 s3 s4 s5 s6 s7 option.case prod.case simp_thms if_True)
qed

lemma parse_display_ok: "parse_display (line_tree L) = Inr (line_display L)"
proof (cases "ln_resolution_offset L")
  case None
  then show ?thesis
    by (cases "ln_screen_size L")
      (simp_all add: parse_display_def children_def opt_children_def filter_tree_single_def
        filter_tree_def first_def py_index_def token_value_def sz_tree_def line_tree_def
        line_display_def Display_init_def split: prod.splits)
next
  case (Some q)
  obtain w gx h dx vx dy vy where q: "q = (w, gx, h, dx, vx, dy, vy)" by (cases q)
  have "parse_offset (Tree ''offset'' [Token ''OFFSET_DIRECTION'' d,
          Tree ''offset_value'' [Token ''NUMBER'' v]]) = Inr \<lparr>direction = d, offset = v\<rparr>" for d v
    by (simp add: parse_offset_def children_def py_index_def token_value_def)
  with Some q show ?thesis
    by (cases "ln_screen_size L")
      (simp_all add: parse_display_def children_def opt_children_def filter_tree_single_def
        filter_tree_def first_def py_index_def token_value_def as_str_def
        ro_tree_def sz_tree_def line_tree_def line_display_def Display_init_def split: prod.splits)
qed

lemma py_in_prefix: "prefix sub s \<Longrightarrow> py_in sub s"
  by (cases s) simp_all

lemma py_in_append: "py_in sub s \<Longrightarrow> py_in sub (a @ s)"
  by (induction a) simp_all

lemma py_in_line_text: "py_in ''connected'' (line_text L)"
proof -
  have "py_in ''connected'' (''connected'' @ r)" for r
    by (rule py_in_prefix) simp
  then have "py_in ''connected'' ((spaced_text (ln_name L) @ ln_connected L) @ ''connected'' @ r)" for r
    by (rule py_in_append)
  then show ?thesis by (simp add: line_text_def)
qed

text \<open>
  Conversely, every line the grammar accepts is one of the lines written out above: each
  terminal the lexer matched is preceded by skipped white space only.
\<close>

lemma gap_takeWhile: "gap (takeWhile is_ws s)"
  by (auto simp add: gap_def list_all_iff dest: set_takeWhileD)

lemma lex_regex_inv:
  assumes "lex_regex cls s = Some (v, r)"
  shows "\<exists>g. gap g \<and> s = g @ v @ r \<and> v \<noteq> [] \<and> list_all cls v \<and> (r = [] \<or> \<not> cls (hd r))"
proof -
  let ?s' = "dropWhile is_ws s"
  from assms have v: "v = takeWhile cls ?s'" and r: "r = dropWhile cls ?s'" and ne: "v \<noteq> []"
    by (auto simp add: lex_regex_def Let_def split: if_splits)
  have "s = takeWhile is_ws s @ v @ r"
    unfolding v r by simp
  moreover have "list_all cls v"
    unfolding v by (auto simp add: list_all_iff dest: set_takeWhileD)
  moreover have "r = [] \<or> \<not> cls (hd r)"
    unfolding r using hd_dropWhile [of cls ?s'] by blast
  ultimately show ?thesis using ne gap_takeWhile by blast
qed

lemma lex_literal_inv:
  assumes "lex_literal lit s = Some r"
  shows "\<exists>g. gap g \<and> s = g @ lit @ r"
proof -
  let ?s' = "dropWhile is_ws s"
  from assms have p: "prefix lit ?s'" and r: "r = drop (length lit) ?s'"
    by (auto simp add: lex_literal_def Let_def split: if_splits)
  from p obtain z where z: "?s' = lit @ z" by (auto simp add: prefix_def)
  with r have "r = z" by simp
  with z have "s = takeWhile is_ws s @ lit @ r"
    by (metis takeWhile_dropWhile_id)
  then show ?thesis using gap_takeWhile by blast
qed

lemma lex_number_inv:
  assumes "lex_regex is_digit s = Some (v, r)"
  shows "\<exists>g. gap g \<and> number v \<and> s = g @ v @ r"
  using lex_regex_inv [OF assms] by (auto simp add: number_def)

lemma lex_OFFSET_DIRECTION_inv:
  assumes "lex_OFFSET_DIRECTION s = Some (d, r)"
  shows "\<exists>g. gap g \<and> sign d \<and> s = g @ d @ r"
proof (cases "lex_literal ''+'' s")
  case (Some r')
  with assms have "d = ''+''" "r' = r" by (simp_all add: lex_OFFSET_DIRECTION_def)
  with Some lex_literal_inv [of "''+''" s r] show ?thesis by (auto simp add: sign_def)
next
  case None
  with assms have "lex_literal ''-'' s = Some r" "d = ''-''"
    by (auto simp add: lex_OFFSET_DIRECTION_def split: option.splits)
  with lex_literal_inv [of "''-''" s r] show ?thesis by (auto simp add: sign_def)
qed

lemma p_offset_inv:
  assumes "p_offset s = Some (t, r)"
  shows "\<exists>d v. gap (fst d) \<and> sign (snd d) \<and> gap (fst v) \<and> number (snd v)
    \<and> s = spaced_text d @ spaced_text v @ r"
proof -
  from assms obtain d r1 v r2 where a: "lex_OFFSET_DIRECTION s = Some (d, r1)"
    and b: "lex_regex is_digit r1 = Some (v, r2)" and "r2 = r"
    by (auto simp add: p_offset_def p_offset_value_def split: option.splits)
  from lex_OFFSET_DIRECTION_inv [OF a] obtain g1 where g1: "gap g1" "sign d" "s = g1 @ d @ r1"
    by blast
  from lex_number_inv [OF b] obtain g2 where g2: "gap g2" "number v" "r1 = g2 @ v @ r2"
    by blast
  have "gap (fst (g1, d)) \<and> sign (snd (g1, d)) \<and> gap (fst (g2, v)) \<and> number (snd (g2, v))
    \<and> s = spaced_text (g1, d) @ spaced_text (g2, v) @ r"
    using g1 g2 \<open>r2 = r\<close> by (simp add: spaced_text_def)
  then show ?thesis by blast
qed

lemma p_resolution_offset_inv:
  assumes "p_resolution_offset s = Some (t, r)"
  shows "\<exists>q. resolution_offset_ok q \<and> s = resolution_offset_text q @ r"
proof -
  from assms obtain w r1 r2 h r3 x r4 y where a: "lex_regex is_digit s = Some (w, r1)"
    and b: "lex_literal ''x'' r1 = Some r2" and c: "lex_regex is_digit r2 = Some (h, r3)"
    and d: "p_offset r3 = Some (x, r4)" and e: "p_offset r4 = Some (y, r)"
    by (auto simp add: p_resolution_offset_def p_pixels_def p_screen_offset_def split: option.splits)
  from lex_number_inv [OF a] obtain g1 where g1: "gap g1" "number w" "s = g1 @ w @ r1" by blast
  from lex_literal_inv [OF b] obtain gx where gx: "gap gx" "r1 = gx @ ''x'' @ r2" by blast
  from lex_number_inv [OF c] obtain g2 where g2: "gap g2" "number h" "r2 = g2 @ h @ r3" by blast
  from p_offset_inv [OF d] obtain dx vx where x: "gap (fst dx)" "sign (snd dx)" "gap (fst vx)"
      "number (snd vx)" "r3 = spaced_text dx @ spaced_text vx @ r4" by blast
  from p_offset_inv [OF e] obtain dy vy where y: "gap (fst dy)" "sign (snd dy)" "gap (fst vy)"
      "number (snd vy)" "r4 = spaced_text dy @ spaced_text vy @ r" by blast
  let ?q = "((g1, w), gx, (g2, h), dx, vx, dy, vy)"
  have "resolution_offset_ok ?q"
    using g1 gx g2 x y by (simp add: resolution_offset_ok_def)
  moreover have "s = resolution_offset_text ?q @ r"
    using g1 gx g2 x y by (simp add: resolution_offset_text_def spaced_text_def)
  ultimately show ?thesis by blast
qed

lemma p_length_inv:
  assumes "p_length s = Some (t, r)"
  shows "\<exists>g v gm. gap g \<and> number v \<and> gap gm \<and> s = g @ v @ gm @ ''mm'' @ r"
proof -
  from assms obtain v r1 where a: "lex_regex is_digit s = Some (v, r1)"
    and b: "lex_literal ''mm'' r1 = Some r"
    by (auto simp add: p_length_def split: option.splits)
  from lex_number_inv [OF a] obtain g where g: "gap g" "number v" "s = g @ v @ r1" by blast
  from lex_literal_inv [OF b] obtain gm where gm: "gap gm" "r1 = gm @ ''mm'' @ r" by blast
  from g gm show ?thesis by blast
qed

lemma p_screen_size_inv:
  assumes "p_screen_size s = Some (t, r)"
  shows "\<exists>q. screen_size_ok q \<and> s = screen_size_text q @ r"
proof -
  from assms obtain a r1 r2 b where a: "p_length s = Some (a, r1)"
    and x: "lex_literal ''x'' r1 = Some r2" and b: "p_length r2 = Some (b, r)"
    by (auto simp add: p_screen_size_def split: option.splits)
  from p_length_inv [OF a] obtain g1 v1 gm1 where 1: "gap g1" "number v1" "gap gm1"
      "s = g1 @ v1 @ gm1 @ ''mm'' @ r1" by blast
  from lex_literal_inv [OF x] obtain gx where gx: "gap gx" "r1 = gx @ ''x'' @ r2" by blast
  from p_length_inv [OF b] obtain g2 v2 gm2 where 2: "gap g2" "number v2" "gap gm2"
      "r2 = g2 @ v2 @ gm2 @ ''mm'' @ r" by blast
  let ?q = "((g1, v1), gm1, gx, (g2, v2), gm2)"
  have "screen_size_ok ?q" using 1 gx 2 by (simp add: screen_size_ok_def)
  moreover have "s = screen_size_text ?q @ r"
    using 1 gx 2 by (simp add: screen_size_text_def spaced_text_def)
  ultimately show ?thesis by blast
qed

lemma lex_word_inv:
  assumes "lex_word s = Some r"
  shows "\<exists>f. flag f \<and> s = spaced_text f @ r"
proof -
  from assms obtain w ws where f: "filter (\<lambda>w. lex_literal w s \<noteq> None)
      [''normal'', ''left'', ''inverted'', ''right'', ''x'', ''axis'', ''y''] = w # ws"
    and l: "lex_literal w s = Some r"
    by (auto simp add: lex_word_def split: list.splits)
  have "w \<in> set (w # ws)" by simp
  then have w: "w \<in> set [''normal'', ''left'', ''inverted'', ''right'', ''x'', ''axis'', ''y'']"
    unfolding f [symmetric] by (simp only: set_filter) blast
  from lex_literal_inv [OF l] obtain g where "gap g" "s = g @ w @ r" by blast
  with w have "flag (g, w) \<and> s = spaced_text (g, w) @ r"
    by (simp add: flag_def spaced_text_def)
  then show ?thesis by blast
qed

lemma more_words_inv:
  "\<exists>flags. list_all flag flags \<and> s = concat (map spaced_text flags) @ more_words s"
proof (induction s rule: more_words.induct)
  case (1 s)
  show ?case
  proof (cases "lex_word s")
    case None
    then have "more_words s = s" by (simp add: more_words.simps)
    then have "list_all flag [] \<and> s = concat (map spaced_text []) @ more_words s" by simp
    then show ?thesis by blast
  next
    case (Some r)
    then have m: "more_words s = more_words r" by (simp add: more_words.simps)
    from lex_word_inv [OF Some] obtain f where f: "flag f" "s = spaced_text f @ r" by blast
    from "1.IH" [OF Some] obtain flags where fl: "list_all flag flags"
        "r = concat (map spaced_text flags) @ more_words r" by blast
    have "s = concat (map spaced_text (f # flags)) @ more_words s"
      using f(2) fl(2) m by simp
    moreover have "list_all flag (f # flags)"
      using f(1) fl(1) by simp
    ultimately show ?thesis by blast
  qed
qed

lemma p_orientation_inv:
  assumes "p_orientation s = Some (t, r)"
  shows "\<exists>gl flags gr. gap gl \<and> flags \<noteq> [] \<and> list_all flag flags \<and> gap gr
    \<and> s = gl @ ''('' @ concat (map spaced_text flags) @ gr @ '')'' @ r"
proof -
  from assms obtain r1 r2 where a: "lex_literal ''('' s = Some r1"
    and b: "lex_word r1 = Some r2" and c: "lex_literal '')'' (more_words r2) = Some r"
    by (auto simp add: p_orientation_def split: option.splits)
  from lex_literal_inv [OF a] obtain gl where gl: "gap gl" "s = gl @ ''('' @ r1" by blast
  from lex_word_inv [OF b] obtain f where f: "flag f" "r1 = spaced_text f @ r2" by blast
  from more_words_inv [of r2] obtain flags where fl: "list_all flag flags"
      "r2 = concat (map spaced_text flags) @ more_words r2" by blast
  from lex_literal_inv [OF c] obtain gr where gr: "gap gr" "more_words r2 = gr @ '')'' @ r" by blast
  have "s = gl @ ''('' @ concat (map spaced_text (f # flags)) @ gr @ '')'' @ r"
    using gl(2) f(2) fl(2) gr(2) by (metis append.assoc concat.simps(2) list.simps(9))
  moreover have "list_all flag (f # flags)" "f # flags \<noteq> []"
    using f(1) fl(1) by simp_all
  ultimately show ?thesis using gl(1) gr(1) by blast
qed

lemma p_optional_inv:
  assumes "p_optional p s = Some (ts, r)"
  shows "(ts = [] \<and> r = s) \<or> (\<exists>t. p s = Some (t, r))"
  using assms by (auto simp add: p_optional_def split: if_splits option.splits)

lemma lark_parse_inv:
  assumes "lark_parse line = Inr t"
  shows "\<exists>L. line_matches L \<and> line_text L = line"
proof -
  from assms have "p_start line = Some t"
    by (simp add: lark_parse_def split: option.splits)
  then obtain out r1 r2 ro r3 ori r4 sz r5 where
    a: "p_output line = Some (out, r1)"
    and b: "lex_literal ''connected'' r1 = Some r2"
    and c: "p_optional p_resolution_offset
              (case lex_literal ''primary'' r2 of None \<Rightarrow> r2 | Some r \<Rightarrow> r) = Some (ro, r3)"
    and d: "p_orientation r3 = Some (ori, r4)"
    and e: "p_optional p_screen_size r4 = Some (sz, r5)"
    and f: "dropWhile is_ws r5 = []"
    unfolding p_start_def by (auto split: option.splits if_splits)
  from a obtain n where "lex_regex is_text line = Some (n, r1)"
    by (auto simp add: p_output_def split: option.splits)
  from lex_regex_inv [OF this] obtain g0 where n: "gap g0" "line = g0 @ n @ r1" "n \<noteq> []"
      "list_all is_text n" "r1 = [] \<or> \<not> is_text (hd r1)"
    by blast
  from lex_literal_inv [OF b] obtain gc where gc: "gap gc" "r1 = gc @ ''connected'' @ r2" by blast
  have gc_ne: "gc \<noteq> []"
  proof
    assume "gc = []"
    with gc(2) have "r1 \<noteq> []" "hd r1 = CHR ''c''" by simp_all
    moreover have "is_text (CHR ''c'')" by (simp add: is_text_def)
    ultimately show False using n(5) by simp
  qed
  define r2' where "r2' = (case lex_literal ''primary'' r2 of None \<Rightarrow> r2 | Some r \<Rightarrow> r)"
  have "\<exists>prim. (case prim of None \<Rightarrow> True | Some g \<Rightarrow> gap g)
      \<and> r2 = (case prim of None \<Rightarrow> [] | Some g \<Rightarrow> g @ ''primary'') @ r2'"
  proof (cases "lex_literal ''primary'' r2")
    case None
    then have "(case None of None \<Rightarrow> True | Some g \<Rightarrow> gap g)
      \<and> r2 = (case None of None \<Rightarrow> [] | Some g \<Rightarrow> g @ ''primary'') @ r2'"
      by (simp add: r2'_def)
    then show ?thesis by blast
  next
    case (Some r)
    from lex_literal_inv [OF Some] obtain g where "gap g" "r2 = g @ ''primary'' @ r" by blast
    with Some have "(case Some g of None \<Rightarrow> True | Some g \<Rightarrow> gap g)
      \<and> r2 = (case Some g of None \<Rightarrow> [] | Some g \<Rightarrow> g @ ''primary'') @ r2'"
      by (simp add: r2'_def)
    then show ?thesis by blast
  qed
  then obtain prim where prim: "case prim of None \<Rightarrow> True | Some g \<Rightarrow> gap g"
      "r2 = (case prim of None \<Rightarrow> [] | Some g \<Rightarrow> g @ ''primary'') @ r2'"
    by blast
  have "\<exists>rq. (case rq of None \<Rightarrow> True | Some q \<Rightarrow> resolution_offset_ok q)
      \<and> r2' = (case rq of None \<Rightarrow> [] | Some q \<Rightarrow> resolution_offset_text q) @ r3"
  proof -
    from p_optional_inv [OF c [folded r2'_def]]
    consider "r3 = r2'" | t' where "p_resolution_offset r2' = Some (t', r3)" by blast
    then show ?thesis
    proof cases
      case 1
      then have "(case None of None \<Rightarrow> True | Some q \<Rightarrow> resolution_offset_ok q)
        \<and> r2' = (case None of None \<Rightarrow> [] | Some q \<Rightarrow> resolution_offset_text q) @ r3"
        by simp
      then show ?thesis by blast
    next
      case 2
      from p_resolution_offset_inv [OF 2] obtain q where "resolution_offset_ok q"
          "r2' = resolution_offset_text q @ r3" by blast
      then have "(case Some q of None \<Rightarrow> True | Some q \<Rightarrow> resolution_offset_ok q)
        \<and> r2' = (case Some q of None \<Rightarrow> [] | Some q \<Rightarrow> resolution_offset_text q) @ r3"
        by simp
      then show ?thesis by blast
    qed
  qed
  then obtain rq where rq: "case rq of None \<Rightarrow> True | Some q \<Rightarrow> resolution_offset_ok q"
      "r2' = (case rq of None \<Rightarrow> [] | Some q \<Rightarrow> resolution_offset_text q) @ r3"
    by blast
  from p_orientation_inv [OF d] obtain gl flags gr where ori: "gap gl" "flags \<noteq> []"
      "list_all flag flags" "gap gr"
      "r3 = gl @ ''('' @ concat (map spaced_text flags) @ gr @ '')'' @ r4"
    by blast
  have "\<exists>sq. (case sq of None \<Rightarrow> True | Some q \<Rightarrow> screen_size_ok q)
      \<and> r4 = (case sq of None \<Rightarrow> [] | Some q \<Rightarrow> screen_size_text q) @ r5"
  proof -
    from p_optional_inv [OF e]
    consider "r5 = r4" | t' where "p_screen_size r4 = Some (t', r5)" by blast
    then show ?thesis
    proof cases
      case 1
      then have "(case None of None \<Rightarrow> True | Some q \<Rightarrow> screen_size_ok q)
        \<and> r4 = (case None of None \<Rightarrow> [] | Some q \<Rightarrow> screen_size_text q) @ r5"
        by simp
      then show ?thesis by blast
    next
      case 2
      from p_screen_size_inv [OF 2] obtain q where "screen_size_ok q"
          "r4 = screen_size_text q @ r5" by blast
      then have "(case Some q of None \<Rightarrow> True | Some q \<Rightarrow> screen_size_ok q)
        \<and> r4 = (case Some q of None \<Rightarrow> [] | Some q \<Rightarrow> screen_size_text q) @ r5"
        by simp
      then show ?thesis by blast
    qed
  qed
  then obtain sq where sq: "case sq of None \<Rightarrow> True | Some q \<Rightarrow> screen_size_ok q"
      "r4 = (case sq of None \<Rightarrow> [] | Some q \<Rightarrow> screen_size_text q) @ r5"
    by blast
  have ge: "gap r5"
    using f by (simp add: gap_def list_all_iff)
  let ?L = "\<lparr>ln_name = (g0, n), ln_connected = gc, ln_primary = prim,
    ln_resolution_offset = rq, ln_open = gl, ln_flags = flags, ln_close = gr,
    ln_screen_size = sq, ln_end = r5\<rparr>"
  have "line_matches ?L"
    using n(1,3,4) gc(1) gc_ne prim(1) rq(1) ori(1-4) sq(1) ge
    by (simp add: line_matches_def)
  moreover have "line_text ?L = line"
    unfolding n(2) gc(2) prim(2) rq(2) ori(5) sq(2)
    by (simp add: line_text_def spaced_text_def)
  ultimately show ?thesis by blast
qed

text \<open>
  C7. For every line that matches the single-line grammar, with any white space between its
  tokens, parsing the line and reading the tree with \<open>parse_display\<close> gives back exactly
  the name, the resolution and the two offsets written on it (resolution and offsets absent
  when the line has none), with an empty edid; and unless the line contains the disconnected
  marker, the loop of \<open>parse\<close> appends that display and sets the connected flag. These are
  all the lines the grammar accepts: whenever the parser returns a tree for a line, the line
  is one of them and \<open>parse_display\<close> returns the tuple written on it. The witness is the
  line of the claim,
  \<open>eDP-1 connected primary 1920x1080+0+0 (normal left inverted right x axis y) 310mm x 170mm\<close>.
\<close>

theorem parse_connected_line:
  "(line_matches L \<longrightarrow>
      bind (lark_parse (line_text L)) parse_display = Inr (line_display L)
      \<and> (\<not> py_in ''disconnected'' (line_text L) \<longrightarrow>
          parse_step st (line_text L) =
            Inr (st\<lparr>parsed_displays := parsed_displays st @ [line_display L],
                    last_connected := True\<rparr>)))
   \<and> (lark_parse line = Inr t \<longrightarrow>
        (\<exists>K. line_matches K \<and> line_text K = line \<and> parse_display t = Inr (line_display K)))"
proof (intro conjI impI)
  assume m: "line_matches L"
  show "bind (lark_parse (line_text L)) parse_display = Inr (line_display L)"
    using lark_parse_ok [OF m] parse_display_ok [of L] by simp
  assume "\<not> py_in ''disconnected'' (line_text L)"
  then show "parse_step st (line_text L) =
      Inr (st\<lparr>parsed_displays := parsed_displays st @ [line_display L], last_connected := True\<rparr>)"
    using lark_parse_ok [OF m] parse_display_ok [of L] py_in_line_text [of L]
    by (simp add: parse_step_def)
next
  assume t: "lark_parse line = Inr t"
  from lark_parse_inv [OF t] obtain K where K: "line_matches K" "line_text K = line" by blast
  from lark_parse_ok [OF K(1)] t K(2) have "t = line_tree K" by simp
  then have "parse_display t = Inr (line_display K)" by (simp add: parse_display_ok)
  with K show "\<exists>K. line_matches K \<and> line_text K = line \<and> parse_display t = Inr (line_display K)"
    by blast
qed

theorem parse_connected_line_witness:
  "line_matches eDP1_layout
   \<and> line_text eDP1_layout =
     ''eDP-1 connected primary 1920x1080+0+0 (normal left inverted right x axis y) 310mm x 170mm''
   \<and> bind (lark_parse
        ''eDP-1 connected primary 1920x1080+0+0 (normal left inverted right x axis y) 310mm x 170mm'')
       parse_display =
     Inr \<lparr>name = ''eDP-1'', resolution = Some ''1920x1080'',
          x_offset = Some \<lparr>direction = ''+'', offset = ''0''\<rparr>,
          y_offset = Some \<lparr>direction = ''+'', offset = ''0''\<rparr>, edid = []\<rparr>
   \<and> parse_step initial_state
        ''eDP-1 connected primary 1920x1080+0+0 (normal left inverted right x axis y) 310mm x 170mm'' =
     Inr \<lparr>parsed_displays =
            [\<lparr>name = ''eDP-1'', resolution = Some ''1920x1080'',
              x_offset = Some \<lparr>direction = ''+'', offset = ''0''\<rparr>,
              y_offset = Some \<lparr>direction = ''+'', offset = ''0''\<rparr>, edid = []\<rparr>],
          edid_buffer = [], collect_lines = False, attribute_indentation = 0,
          last_connected = True\<rparr>
   \<and> lark_parse
        ''eDP-1 connected primary 1920x1080+0+0 (normal left inverted right x axis y) 310mm x 170mm'' =
     Inr (line_tree eDP1_layout)
   \<and> (\<exists>K. line_matches K
        \<and> line_text K =
          ''eDP-1 connected primary 1920x1080+0+0 (normal left inverted right x axis y) 310mm x 170mm''
        \<and> parse_display (line_tree eDP1_layout) = Inr (line_display K))"
proof -
  let ?line = "''eDP-1 connected primary 1920x1080+0+0 (normal left inverted right x axis y) 310mm x 170mm''"
  have wf: "line_matches eDP1_layout"
    by (simp add: line_matches_def eDP1_layout_def resolution_offset_ok_def screen_size_ok_def
        flag_def gap_def number_def sign_def is_digit_def is_text_def is_ws_def)
  have line: "line_text eDP1_layout = ?line"
    by (simp add: line_text_def eDP1_layout_def resolution_offset_text_def screen_size_text_def
        spaced_text_def)
  have disp: "line_display eDP1_layout =
      \<lparr>name = ''eDP-1'', resolution = Some ''1920x1080'',
       x_offset = Some \<lparr>direction = ''+'', offset = ''0''\<rparr>,
       y_offset = Some \<lparr>direction = ''+'', offset = ''0''\<rparr>, edid = []\<rparr>"
    by (simp add: line_display_def eDP1_layout_def)
  have nd: "\<not> py_in ''disconnected'' ?line"
    by simp
  have tree: "lark_parse ?line = Inr (line_tree eDP1_layout)"
    using lark_parse_ok [OF wf] by (simp only: line)
  have first: "bind (lark_parse ?line) parse_display = Inr (line_display eDP1_layout)"
    and step: "parse_step initial_state ?line =
      Inr (initial_state\<lparr>parsed_displays := parsed_displays initial_state @ [line_display eDP1_layout],
             last_connected := True\<rparr>)"
    and ex: "\<exists>K. line_matches K \<and> line_text K = ?line
        \<and> parse_display (line_tree eDP1_layout) = Inr (line_display K)"
    using parse_connected_line [of eDP1_layout initial_state ?line "line_tree eDP1_layout"]
      wf nd tree unfolding line by blast+
  from step have step': "parse_step initial_state ?line =
     Inr \<lparr>parsed_displays =
            [\<lparr>name = ''eDP-1'', resolution = Some ''1920x1080'',
              x_offset = Some \<lparr>direction = ''+'', offset = ''0''\<rparr>,
              y_offset = Some \<lparr>direction = ''+'', offset = ''0''\<rparr>, edid = []\<rparr>],
          edid_buffer = [], collect_lines = False, attribute_indentation = 0,
          last_connected = True\<rparr>"
    unfolding disp by (simp add: initial_state_def)
  from wf line first [unfolded disp] step' tree ex show ?thesis by blast
qed

section \<open>Status Parser: properties of the loop\<close>

lemma parse_loop_append:
  "parse_loop st (xs @ ys) = bind (parse_loop st xs) (\<lambda>st'. parse_loop st' ys)"
proof (induction xs arbitrary: st)
  case Nil
  then show ?case by simp
next
  case (Cons x xs)
  then show ?case by (cases "parse_step st x") simp_all
qed

text \<open>
  C6. In every parser state, a line containing the disconnected marker yields no display: the
  step returns the state with the connected flag reset and nothing else changed, so a text
  with such a line is parsed as its lines before it, the reset, and its lines after it.
\<close>

theorem disconnected_line_ignored:
  assumes "py_in ''disconnected'' line"
  shows "parse_step st line = Inr (st\<lparr>last_connected := False\<rparr>)
    \<and> parse_loop st0 (pre @ line # rest) =
        bind (parse_loop st0 pre) (\<lambda>st'. parse_loop (st'\<lparr>last_connected := False\<rparr>) rest)"
  using assms by (simp add: parse_loop_append parse_step_def)

theorem disconnected_line_ignored_witness:
  "py_in ''disconnected'' ''HDMI-1 disconnected (normal left inverted right x axis y)''
   \<and> parse_step
        \<lparr>parsed_displays = [eDP1], edid_buffer = [''00ffffffffffff00''], collect_lines = True,
         attribute_indentation = 1, last_connected = True\<rparr>
        ''HDMI-1 disconnected (normal left inverted right x axis y)'' =
      Inr \<lparr>parsed_displays = [eDP1], edid_buffer = [''00ffffffffffff00''], collect_lines = True,
           attribute_indentation = 1, last_connected = False\<rparr>"
proof -
  have d: "py_in ''disconnected'' ''HDMI-1 disconnected (normal left inverted right x axis y)''"
    by simp
  show ?thesis
    using disconnected_line_ignored [OF d, of
        "\<lparr>parsed_displays = [eDP1], edid_buffer = [''00ffffffffffff00''], collect_lines = True,
          attribute_indentation = 1, last_connected = True\<rparr>" initial_state "[]" "[]"] d
    by simp
qed

lemma py_in_iff: "py_in sub s \<longleftrightarrow> (\<exists>a b. s = a @ sub @ b)"
proof (induction s)
  case Nil
  then show ?case by auto
next
  case (Cons c cs)
  show ?case
  proof
    assume "py_in sub (c # cs)"
    then consider "prefix sub (c # cs)" | "py_in sub cs" by auto
    then show "\<exists>a b. c # cs = a @ sub @ b"
    proof cases
      case 1
      then obtain b where "c # cs = sub @ b" by (auto simp add: prefix_def)
      then have "c # cs = [] @ sub @ b" by simp
      then show ?thesis by blast
    next
      case 2
      with Cons.IH obtain a b where "cs = a @ sub @ b" by blast
      then have "c # cs = (c # a) @ sub @ b" by simp
      then show ?thesis by blast
    qed
  next
    assume "\<exists>a b. c # cs = a @ sub @ b"
    then obtain a b where ab: "c # cs = a @ sub @ b" by blast
    show "py_in sub (c # cs)"
    proof (cases a)
      case Nil
      with ab have "prefix sub (c # cs)" by (simp add: prefix_def)
      then show ?thesis by simp
    next
      case (Cons x a')
      with ab have "cs = a' @ sub @ b" by simp
      with Cons.IH have "py_in sub cs" by blast
      then show ?thesis by simp
    qed
  qed
qed

lemma py_in_set: "py_in sub s \<Longrightarrow> set sub \<subseteq> set s"
  by (auto simp add: py_in_iff)

lemma disconnected_connected: "py_in ''disconnected'' s \<Longrightarrow> py_in ''connected'' s"
proof -
  assume "py_in ''disconnected'' s"
  then obtain a b where "s = a @ ''disconnected'' @ b" by (auto simp add: py_in_iff)
  then have "s = (a @ ''dis'') @ ''connected'' @ b" by simp
  then show ?thesis unfolding py_in_iff by blast
qed

lemma str_index_py_in: "str_index s sub = Inr i \<Longrightarrow> py_in sub s"
proof (induction s arbitrary: i)
  case Nil
  then show ?case by (simp split: if_splits)
next
  case (Cons c cs)
  show ?case
  proof (cases "prefix sub (c # cs)")
    case True
    then show ?thesis by simp
  next
    case False
    with Cons.prems obtain j where "str_index cs sub = Inr j"
      by (cases "str_index cs sub") simp_all
    with Cons.IH have "py_in sub cs" by blast
    then show ?thesis by simp
  qed
qed

lemma step_marker:
  assumes "last_connected st" "\<not> py_in ''connected'' m" "str_index m ''EDID'' = Inr a"
  shows "parse_step st m =
    Inr (st\<lparr>edid_buffer := [], attribute_indentation := a, collect_lines := True\<rparr>)"
  using assms disconnected_connected [of m] str_index_py_in [OF assms(3)]
  by (auto simp add: parse_step_def)

lemma step_collect:
  assumes "collect_lines st" "\<not> py_in ''connected'' l" "\<not> py_in ''EDID'' l"
    "indentation_of (attribute_indentation st) l \<noteq> attribute_indentation st"
  shows "parse_step st l = Inr (st\<lparr>edid_buffer := edid_buffer st @ [strip l]\<rparr>)"
  using assms disconnected_connected [of l]
  by (auto simp add: parse_step_def)

lemma py_index_last: "xs \<noteq> [] \<Longrightarrow> py_index xs (int (length xs) - 1) = Inr (last xs)"
proof (cases xs rule: rev_cases)
  case Nil
  assume "xs \<noteq> []"
  with Nil show ?thesis by simp
next
  case (snoc ys y)
  then show ?thesis using py_index_nat [of "length ys" "ys @ [y]"] by simp
qed

lemma step_terminate:
  assumes "collect_lines st" "\<not> py_in ''connected'' t" "\<not> py_in ''EDID'' t"
    "indentation_of (attribute_indentation st) t = attribute_indentation st"
    "parsed_displays st \<noteq> []"
  shows "parse_step st t =
    Inr (st\<lparr>collect_lines := False,
            parsed_displays := butlast (parsed_displays st) @
              [(last (parsed_displays st))\<lparr>edid := concat (edid_buffer st)\<rparr>]\<rparr>)"
proof -
  have "py_index (parsed_displays st) (int (length (parsed_displays st)) - 1) =
      Inr (last (parsed_displays st))"
    using assms(5) by (rule py_index_last)
  moreover have "(parsed_displays st)[length (parsed_displays st) - 1 := x] =
      butlast (parsed_displays st) @ [x]" for x
    using assms(5) by (cases "parsed_displays st" rule: rev_cases) simp_all
  ultimately show ?thesis
    using assms(1-4) disconnected_connected [of t]
    by (auto simp add: parse_step_def)
qed

lemma collect_block:
  assumes "collect_lines st"
    "\<forall>l \<in> set block. \<not> py_in ''connected'' l \<and> \<not> py_in ''EDID'' l
        \<and> indentation_of (attribute_indentation st) l \<noteq> attribute_indentation st"
  shows "parse_loop st (block @ rest) =
    parse_loop (st\<lparr>edid_buffer := edid_buffer st @ map strip block\<rparr>) rest"
  using assms
proof (induction block arbitrary: st)
  case Nil
  then show ?case by simp
next
  case (Cons l block)
  have "parse_step st l = Inr (st\<lparr>edid_buffer := edid_buffer st @ [strip l]\<rparr>)"
    using Cons.prems by (intro step_collect) simp_all
  moreover have "parse_loop (st\<lparr>edid_buffer := edid_buffer st @ [strip l]\<rparr>) (block @ rest) =
      parse_loop (st\<lparr>edid_buffer := edid_buffer st @ [strip l]\<rparr>
        \<lparr>edid_buffer := edid_buffer (st\<lparr>edid_buffer := edid_buffer st @ [strip l]\<rparr>) @ map strip block\<rparr>) rest"
    using Cons.prems by (intro Cons.IH) simp_all
  ultimately show ?case by simp
qed

lemma step_invariant:
  assumes "parse_step st l = Inr st'"
    "last_connected st \<or> collect_lines st \<longrightarrow> parsed_displays st \<noteq> []"
  shows "last_connected st' \<or> collect_lines st' \<longrightarrow> parsed_displays st' \<noteq> []"
proof -
  consider (d) "py_in ''disconnected'' l"
    | (c) "\<not> py_in ''disconnected'' l" "py_in ''connected'' l"
    | (e) "\<not> py_in ''disconnected'' l" "\<not> py_in ''connected'' l" "last_connected st \<and> py_in ''EDID'' l"
    | (k) "\<not> py_in ''disconnected'' l" "\<not> py_in ''connected'' l" "\<not> (last_connected st \<and> py_in ''EDID'' l)"
    by blast
  then show ?thesis
  proof cases
    case d
    with assms show ?thesis by (auto simp add: parse_step_def)
  next
    case c
    with assms(1) show ?thesis
      by (cases "lark_parse l"; cases "parse_display (projr (lark_parse l))")
        (auto simp add: parse_step_def)
  next
    case e
    with assms show ?thesis
      by (cases "str_index l ''EDID''") (auto simp add: parse_step_def)
  next
    case k
    with assms show ?thesis
      by (cases "py_index (parsed_displays st) (int (length (parsed_displays st)) - 1)")
        (auto simp add: parse_step_def split: if_splits)
  qed
qed

lemma loop_invariant:
  assumes "parse_loop st ls = Inr st'"
    "last_connected st \<or> collect_lines st \<longrightarrow> parsed_displays st \<noteq> []"
  shows "last_connected st' \<or> collect_lines st' \<longrightarrow> parsed_displays st' \<noteq> []"
  using assms
proof (induction ls arbitrary: st)
  case Nil
  then show ?case by simp
next
  case (Cons l ls)
  from Cons.prems(1) obtain st1 where s: "parse_step st l = Inr st1" and r: "parse_loop st1 ls = Inr st'"
    by (cases "parse_step st l") simp_all
  from step_invariant [OF s Cons.prems(2)] r show ?case by (rule Cons.IH [rotated])
qed

lemma is_hex_cases:
  assumes "is_hex x"
  shows "x \<noteq> CHR ''o''" "x \<noteq> CHR ''I''" "x \<noteq> CHR '' ''" "x \<noteq> CHR 0x09" "\<not> is_space x"
  using assms unfolding is_hex_def is_space_def by auto

lemma dropWhile_none: "\<forall>x \<in> set xs. \<not> P x \<Longrightarrow> dropWhile P xs = xs"
  by (cases xs) simp_all

lemma hex_line:
  assumes "list_all is_hex h"
  shows "\<not> py_in ''connected'' (replicate c (CHR 0x09) @ h)"
    and "\<not> py_in ''EDID'' (replicate c (CHR 0x09) @ h)"
    and "indentation_of a (replicate c (CHR 0x09) @ h) = c"
    and "strip (replicate c (CHR 0x09) @ h) = h"
proof -
  let ?l = "replicate c (CHR 0x09) @ h"
  have hex: "\<And>x. x \<in> set h \<Longrightarrow> is_hex x"
    using assms by (simp add: list_all_iff)
  have "CHR ''o'' \<notin> set h" "CHR ''I'' \<notin> set h" "CHR '' '' \<notin> set h" "CHR 0x09 \<notin> set h"
    using hex is_hex_cases(1-4) by blast+
  then have no: "CHR ''o'' \<notin> set ?l" and nI: "CHR ''I'' \<notin> set ?l" and nb: "CHR '' '' \<notin> set ?l"
    and nt: "CHR 0x09 \<notin> set h"
    by simp_all
  have "CHR ''o'' \<in> set ''connected''" "CHR ''I'' \<in> set ''EDID''" by simp_all
  then show "\<not> py_in ''connected'' ?l" "\<not> py_in ''EDID'' ?l"
    using py_in_set [of "''connected''" ?l] py_in_set [of "''EDID''" ?l] no nI by blast+
  have np: "\<not> prefix '' '' ?l"
  proof
    assume "prefix '' '' ?l"
    then have "set '' '' \<subseteq> set ?l" by (rule set_mono_prefix)
    with nb show False by simp
  qed
  have "takeWhile (\<lambda>x. x = CHR 0x09) h = []"
    using nt by (cases h) auto
  then have "takeWhile (\<lambda>x. x = CHR 0x09) ?l = replicate c (CHR 0x09)"
    by (induction c) simp_all
  with np show "indentation_of a ?l = c" by (simp add: indentation_of_def)
  have ns: "\<forall>x \<in> set h. \<not> is_space x"
    using hex is_hex_cases(5) by blast
  have "is_space (CHR 0x09)" by (simp add: is_space_def)
  then have "dropWhile is_space ?l = dropWhile is_space h"
    by (induction c) simp_all
  also have "\<dots> = h" using ns by (rule dropWhile_none)
  finally have "dropWhile is_space ?l = h" .
  moreover have "dropWhile is_space (rev h) = rev h"
    using ns by (intro dropWhile_none) simp
  ultimately show "strip ?l = h" by (simp add: strip_def)
qed

text \<open>
  C4, amended. Take a status text in which the lines before the EDID marker leave the parser
  with the connected flag set, the marker line has \<open>EDID\<close> at column \<open>a\<close>, it is followed by
  \<open>k\<close> hexadecimal continuation lines indented by \<open>c\<close> tabs with \<open>c \<noteq> a\<close>, and then by a
  line \<open>t\<close> without markers that starts with a blank or is indented by exactly \<open>a\<close> tabs.
  Then there is a most recent display, and after \<open>t\<close> its edid is the in-order concatenation of
  the stripped content of the \<open>k\<close> lines and collection is off. Collection ends at the first
  line that returns to the indentation of the marker (or starts with a blank), not at the first
  line whose indentation differs from \<open>c\<close>.
\<close>

theorem edid_collection:
  assumes "split_lines output = pre @ marker # map (\<lambda>h. replicate c (CHR 0x09) @ h) hs @ t # rest"
    and "parse_loop initial_state pre = Inr st" and "last_connected st"
    and "\<not> py_in ''connected'' marker" and "str_index marker ''EDID'' = Inr a"
    and "list_all (list_all is_hex) hs" and "c \<noteq> a"
    and "\<not> py_in ''connected'' t" and "\<not> py_in ''EDID'' t" and "indentation_of a t = a"
  shows "parsed_displays st \<noteq> []
    \<and> parse output =
        bind (parse_loop
               (st\<lparr>edid_buffer := hs, attribute_indentation := a, collect_lines := False,
                   parsed_displays := butlast (parsed_displays st) @
                     [(last (parsed_displays st))\<lparr>edid := concat hs\<rparr>]\<rparr>) rest)
          (\<lambda>s. Inr (parsed_displays s))"
proof -
  let ?block = "map (\<lambda>h. replicate c (CHR 0x09) @ h) hs"
  let ?st1 = "st\<lparr>edid_buffer := [], attribute_indentation := a, collect_lines := True\<rparr>"
  let ?st2 = "?st1\<lparr>edid_buffer := edid_buffer ?st1 @ map strip ?block\<rparr>"
  have ne: "parsed_displays st \<noteq> []"
    using loop_invariant [OF assms(2)] assms(3) by (simp add: initial_state_def)
  have m: "parse_step st marker = Inr ?st1"
    using assms(3,4,5) by (rule step_marker)
  have strip_block: "map (strip \<circ> (@) (replicate c (CHR 0x09))) hs = hs"
    using assms(6) by (induction hs) (simp_all add: hex_line(4))
  have "\<forall>l \<in> set ?block. \<not> py_in ''connected'' l \<and> \<not> py_in ''EDID'' l
        \<and> indentation_of (attribute_indentation ?st1) l \<noteq> attribute_indentation ?st1"
    using assms(6,7) by (auto simp add: list_all_iff hex_line)
  then have b: "parse_loop ?st1 (?block @ t # rest) = parse_loop ?st2 (t # rest)"
    by (intro collect_block) simp_all
  have "parse_step ?st2 t =
    Inr (?st2\<lparr>collect_lines := False,
            parsed_displays := butlast (parsed_displays ?st2) @
              [(last (parsed_displays ?st2))\<lparr>edid := concat (edid_buffer ?st2)\<rparr>]\<rparr>)"
    using assms(8,9,10) ne by (intro step_terminate) simp_all
  then have e: "parse_loop ?st2 (t # rest) =
      parse_loop (st\<lparr>edid_buffer := hs, attribute_indentation := a, collect_lines := False,
                   parsed_displays := butlast (parsed_displays st) @
                     [(last (parsed_displays st))\<lparr>edid := concat hs\<rparr>]\<rparr>) rest"
    by (cases st) (simp add: strip_block)
  have "parse_loop initial_state (pre @ marker # ?block @ t # rest) =
      parse_loop st (marker # ?block @ t # rest)"
    using assms(2) by (simp add: parse_loop_append)
  also have "\<dots> = parse_loop ?st1 (?block @ t # rest)"
    using m by simp
  also note b
  also note e
  finally show ?thesis
    using ne by (simp add: parse_def assms(1))
qed

lemma eDP1_line_state:
  "parse_loop initial_state [eDP1_line] =
     Inr \<lparr>parsed_displays = [eDP1\<lparr>edid := []\<rparr>], edid_buffer = [], collect_lines = False,
          attribute_indentation = 0, last_connected = True\<rparr>"
  unfolding eDP1_line_def by code_simp

theorem edid_collection_witness:
  "parse (eDP1_line @ [CHR 0x0A] @
          (CHR 0x09 # ''EDID: '') @ [CHR 0x0A] @
          (CHR 0x09 # CHR 0x09 # ''00ffffffffffff00'') @ [CHR 0x0A] @
          (CHR 0x09 # CHR 0x09 # ''0daec914'') @ [CHR 0x0A] @
          (CHR 0x09 # ''BACKLIGHT: 7'') @ [CHR 0x0A] @
          ''   1920x1080     60.00*+'') = Inr [eDP1]"
proof -
  let ?out = "eDP1_line @ [CHR 0x0A] @
          (CHR 0x09 # ''EDID: '') @ [CHR 0x0A] @
          (CHR 0x09 # CHR 0x09 # ''00ffffffffffff00'') @ [CHR 0x0A] @
          (CHR 0x09 # CHR 0x09 # ''0daec914'') @ [CHR 0x0A] @
          (CHR 0x09 # ''BACKLIGHT: 7'') @ [CHR 0x0A] @
          ''   1920x1080     60.00*+''"
  let ?st = "\<lparr>parsed_displays = [eDP1\<lparr>edid := []\<rparr>], edid_buffer = [], collect_lines = False,
          attribute_indentation = 0, last_connected = True\<rparr>"
  have 1: "split_lines ?out = [eDP1_line] @ (CHR 0x09 # ''EDID: '') #
      map (\<lambda>h. replicate 2 (CHR 0x09) @ h) [''00ffffffffffff00'', ''0daec914''] @
      (CHR 0x09 # ''BACKLIGHT: 7'') # [''   1920x1080     60.00*+'']"
    by (simp add: eDP1_line_def numeral_2_eq_2)
  have 3: "last_connected ?st" by simp
  have 4: "\<not> py_in ''connected'' (CHR 0x09 # ''EDID: '')" by simp
  have 5: "str_index (CHR 0x09 # ''EDID: '') ''EDID'' = Inr 1" by simp
  have 6: "list_all (list_all is_hex) [''00ffffffffffff00'', ''0daec914'']"
    by (simp add: is_hex_def)
  have 7: "(2::nat) \<noteq> 1" by simp
  have 8: "\<not> py_in ''connected'' (CHR 0x09 # ''BACKLIGHT: 7'')" by simp
  have 9: "\<not> py_in ''EDID'' (CHR 0x09 # ''BACKLIGHT: 7'')" by simp
  have 10: "indentation_of 1 (CHR 0x09 # ''BACKLIGHT: 7'') = 1"
    by (simp add: indentation_of_def)
  have rest: "parse_step st ''   1920x1080     60.00*+'' = Inr st" if "\<not> collect_lines st" for st
    using that by (simp add: parse_step_def)
  show ?thesis
    using edid_collection [OF 1 eDP1_line_state 3 4 5 6 7 8 9 10]
    by (simp add: rest eDP1_def Display_init_def)
qed

text \<open>
  C4 as stated fails. Here the two continuation lines at indentation 2 are followed by a line
  at indentation 0, the line of a disconnected output. The claim has collection end there with
  the edid \<open>00ffffffffffff000daec914\<close>; the parser leaves the edid of \<open>eDP-1\<close> empty and is
  still collecting, with the two lines in its buffer.
\<close>

theorem edid_collection_counterexample:
  "parse_loop initial_state
     [''eDP-1 connected primary 1920x1080+0+0 (normal left inverted right x axis y) 310mm x 170mm'',
      CHR 0x09 # ''EDID: '',
      CHR 0x09 # CHR 0x09 # ''00ffffffffffff00'',
      CHR 0x09 # CHR 0x09 # ''0daec914'',
      ''HDMI-1 disconnected (normal left inverted right x axis y)''] =
   Inr \<lparr>parsed_displays =
          [\<lparr>name = ''eDP-1'', resolution = Some ''1920x1080'',
            x_offset = Some \<lparr>direction = ''+'', offset = ''0''\<rparr>,
            y_offset = Some \<lparr>direction = ''+'', offset = ''0''\<rparr>, edid = ''''\<rparr>],
        edid_buffer = [''00ffffffffffff00'', ''0daec914''], collect_lines = True,
        attribute_indentation = 1, last_connected = False\<rparr>"
  by code_simp

end
